theory Spec2Isabelle
  imports Main "HOL-Library.Word" "HOL-Library.Multiset"
begin

unbundle bit_operations_syntax

section \<open>The OCR adapter: \<open>OCRProcessor\<close>\<close>

subsection \<open>The \<open>std::string\<close> operations the adapter uses\<close>

text \<open>
  A \<open>std::string\<close> is a list of bytes. Positions are natural numbers and
  \<open>std::string::npos\<close> is \<open>None\<close>. \<open>find_str s str pos\<close> is \<open>s.find(str, pos)\<close>: the
  first position at or after \<open>pos\<close> where \<open>str\<close> occurs. \<open>replace\<close>, \<open>erase\<close> and
  \<open>substr\<close> throw \<open>std::out_of_range\<close> for a position beyond the end of the string; the
  adapter only calls them at position 0 or at a position a search has returned, which
  is inside the string (\<open>find_bound\<close> below), so the exception is not part of the model.
  \<open>erase s pos None\<close> is the one-argument \<open>s.erase(pos)\<close>, which erases to the end, and
  \<open>npos_plus_1\<close> is the \<open>+ 1\<close> of \<open>result.find_last_not_of(...) + 1\<close>, where
  \<open>npos + 1\<close> wraps around to 0.
\<close>

fun find_at :: "string \<Rightarrow> string \<Rightarrow> nat option" where
  "find_at str [] = (if str = [] then Some 0 else None)"
| "find_at str (c # cs) =
     (if take (length str) (c # cs) = str then Some 0
      else map_option Suc (find_at str cs))"

definition find_str :: "string \<Rightarrow> string \<Rightarrow> nat \<Rightarrow> nat option" where
  "find_str s str pos =
     (if length s < pos then None
      else map_option (\<lambda>i. pos + i) (find_at str (drop pos s)))"

definition replace :: "string \<Rightarrow> nat \<Rightarrow> nat \<Rightarrow> string \<Rightarrow> string" where
  "replace s pos len str = take pos s @ str @ drop (pos + len) s"

fun find_first_not_of :: "string \<Rightarrow> string \<Rightarrow> nat option" where
  "find_first_not_of [] chars = None"
| "find_first_not_of (c # cs) chars =
     (if c \<notin> set chars then Some 0 else map_option Suc (find_first_not_of cs chars))"

definition find_last_not_of :: "string \<Rightarrow> string \<Rightarrow> nat option" where
  "find_last_not_of s chars =
     map_option (\<lambda>i. length s - 1 - i) (find_first_not_of (rev s) chars)"

definition erase :: "string \<Rightarrow> nat \<Rightarrow> nat option \<Rightarrow> string" where
  "erase s pos n = (case n of None \<Rightarrow> take pos s | Some k \<Rightarrow> take pos s @ drop (pos + k) s)"

definition npos_plus_1 :: "nat option \<Rightarrow> nat" where
  "npos_plus_1 p = (case p of None \<Rightarrow> 0 | Some i \<Rightarrow> i + 1)"

definition substr :: "string \<Rightarrow> nat \<Rightarrow> nat \<Rightarrow> string" where
  "substr s pos n = take n (drop pos s)"

lemma find_at_bound: "find_at str s = Some i \<Longrightarrow> i + length str \<le> length s"
proof (induction s arbitrary: i)
  case Nil
  then show ?case by (simp split: if_splits)
next
  case (Cons c cs)
  show ?case
  proof (cases "take (length str) (c # cs) = str")
    case True
    then have "length (take (length str) (c # cs)) = length str"
      by simp
    then have "length str \<le> length (c # cs)"
      by simp
    with True Cons.prems show ?thesis by simp
  next
    case False
    with Cons.prems obtain j where "find_at str cs = Some j" "i = Suc j"
      by auto
    with Cons.IH show ?thesis by simp
  qed
qed

lemma find_bound: "find_str s str pos = Some p \<Longrightarrow> pos \<le> p \<and> p + length str \<le> length s"
  by (auto simp: find_str_def split: if_splits dest!: find_at_bound)

subsection \<open>\<open>OCRProcessor::postProcessText\<close> (src/OCRProcessor.cpp)\<close>

text \<open>
  The three string constants of the function: the whitespace set \<^verbatim>\<open>" \t\n\r\f\v"\<close>, the
  table \<open>replacements\<close> in the order of the source, and the punctuation set
  \<^verbatim>\<open>".,!?*-|`'\""\<close>. The apostrophe, the double quote and the backslash are written by
  their codes \<open>0x27\<close>, \<open>0x22\<close> and \<open>0x5C\<close>.
\<close>

definition whitespace :: string where
  "whitespace = [CHR '' '', CHR 0x09, CHR 0x0A, CHR 0x0D, CHR 0x0C, CHR 0x0B]"

definition replacements :: "(string \<times> string) list" where
  "replacements =
     [(''|'', ''l''), (''['', ''l''), ('']'', ''l''), (''`'', [CHR 0x27]),
      ([CHR 0x27, CHR 0x27], [CHR 0x22]), ('' - '', ''-''), ('' ,'', '',''),
      ('' .'', ''.''), ([CHR 0x5C], ''l''), (''//'', ''l''),
      (''0'', ''o''), (''1'', ''l''), (''5'', ''s'')]"

definition punctuation :: string where
  "punctuation = ''.,!?*-|`'' @ [CHR 0x27, CHR 0x22]"

text \<open>
  The replacement loop, for one entry of the table:
  \<^verbatim>\<open>while ((pos = result.find(replacement.first, pos)) != npos) {\<close>
  \<^verbatim>\<open>  result.replace(pos, replacement.first.length(), replacement.second);\<close>
  \<^verbatim>\<open>  pos += replacement.second.length(); }\<close>
  For an empty pattern the C++ loop never ends, so the loop is a partial function: \<open>None\<close>
  is "does not return". \<open>replace_loop_eq\<close> below proves that it returns for every
  non-empty pattern, and every pattern of the table is non-empty.
\<close>

partial_function (option) replace_loop :: "string \<times> string \<Rightarrow> string \<Rightarrow> nat \<Rightarrow> string option" where
  "replace_loop replacement result pos =
     (case find_str result (fst replacement) pos of
        None \<Rightarrow> Some result
      | Some p \<Rightarrow>
          replace_loop replacement
            (replace result p (length (fst replacement)) (snd replacement))
            (p + length (snd replacement)))"

fun apply_replacements :: "(string \<times> string) list \<Rightarrow> string \<Rightarrow> string option" where
  "apply_replacements [] result = Some result"
| "apply_replacements (replacement # rest) result =
     (case replace_loop replacement result 0 of
        None \<Rightarrow> None
      | Some result' \<Rightarrow> apply_replacements rest result')"

fun trim_front :: "string \<Rightarrow> string" where
  "trim_front [] = []"
| "trim_front (c # cs) = (if c \<in> set punctuation then trim_front cs else c # cs)"

function trim_back :: "string \<Rightarrow> string" where
  "trim_back result =
     (if result \<noteq> [] \<and> last result \<in> set punctuation then trim_back (butlast result)
      else result)"
  by pat_completeness auto
termination
  by (relation "measure length") auto

declare trim_back.simps [simp del]

text \<open>
  The last loop of the function collapses spaces and does not advance \<open>pos\<close>:
  \<^verbatim>\<open>while ((pos = result.find("  ", pos)) != npos) { result.replace(pos, 2, " "); }\<close>
  Every iteration shortens the string, which is the termination argument.
\<close>

function collapse_loop :: "string \<Rightarrow> nat \<Rightarrow> string" where
  "collapse_loop result pos =
     (case find_str result ''  '' pos of
        None \<Rightarrow> result
      | Some p \<Rightarrow> collapse_loop (replace result p 2 '' '') p)"
  by pat_completeness auto
termination
proof (relation "measure (\<lambda>(result, pos). length result)")
  show "wf (measure (\<lambda>(result, pos). length result))" by simp
next
  fix result :: string and pos p :: nat
  assume "find_str result ''  '' pos = Some p"
  then have "p + 2 \<le> length result"
    by (auto dest: find_bound)
  then show "((replace result p 2 '' '', p), (result, pos)) \<in> measure (\<lambda>(result, pos). length result)"
    by (simp add: replace_def)
qed

declare collapse_loop.simps [simp del]

text \<open>
  The function itself: strip whitespace with two \<open>erase\<close> calls, apply the table, trim
  punctuation at both ends, collapse spaces.
\<close>

definition postProcessText :: "string \<Rightarrow> string option" where
  "postProcessText text =
     (if text = [] then Some []
      else
        let result = erase text 0 (find_first_not_of text whitespace);
            result = erase result (npos_plus_1 (find_last_not_of result whitespace)) None
        in if result = [] then Some []
           else
             case apply_replacements replacements result of
               None \<Rightarrow> None
             | Some result \<Rightarrow>
                 Some (collapse_loop (if result \<noteq> [] then trim_back (trim_front result) else result) 0))"

subsection \<open>\<open>OCRProcessor::postProcessText\<close>, the variant that handles whitespace only\<close>

text \<open>
  The second \<open>OCRProcessor.cpp\<close> of the repository (unnamed/part_003) strips whitespace
  with \<open>substr\<close> and collapses spaces with a loop that advances \<open>pos\<close> by one after each
  replacement; it has no replacement table and no punctuation trimming. \<open>end\<close> cannot be
  \<open>npos\<close> once \<open>start\<close> is a position; the model keeps the branch, where
  \<open>end - start + 1\<close> wraps around and \<open>substr\<close> returns the rest of the string.
\<close>

function collapse_loop_part_003 :: "string \<Rightarrow> nat \<Rightarrow> string" where
  "collapse_loop_part_003 result pos =
     (case find_str result ''  '' pos of
        None \<Rightarrow> result
      | Some p \<Rightarrow> collapse_loop_part_003 (replace result p 2 '' '') (p + 1))"
  by pat_completeness auto
termination
proof (relation "measure (\<lambda>(result, pos). length result)")
  show "wf (measure (\<lambda>(result, pos). length result))" by simp
next
  fix result :: string and pos p :: nat
  assume "find_str result ''  '' pos = Some p"
  then have "p + 2 \<le> length result"
    by (auto dest: find_bound)
  then show "((replace result p 2 '' '', p + 1), (result, pos)) \<in> measure (\<lambda>(result, pos). length result)"
    by (simp add: replace_def)
qed

declare collapse_loop_part_003.simps [simp del]

definition postProcessText_part_003 :: "string \<Rightarrow> string" where
  "postProcessText_part_003 text =
     (if text = [] then []
      else
        case find_first_not_of text whitespace of
          None \<Rightarrow> []
        | Some start \<Rightarrow>
            let result =
                  (case find_last_not_of text whitespace of
                     None \<Rightarrow> drop start text
                   | Some end \<Rightarrow> substr text start (end - start + 1))
            in collapse_loop_part_003 result 0)"

subsection \<open>\<open>OCRProcessor::processImage\<close> (src/OCRProcessor.cpp)\<close>

text \<open>
  Tesseract and Leptonica are outside the repository: a processor is a record of the
  calls the code makes on them, each returning what the code tests for. A Leptonica
  function returns a null pointer (\<open>None\<close>) on failure; \<open>pixReadMem\<close> is the decoding
  step. \<open>GetUTF8Text\<close> returns a possibly null \<open>char *\<close>, or throws (\<open>Inl\<close>), which
  \<open>processImage\<close> catches. \<open>processImage\<close> returns a string and nothing else: the empty
  string stands for every failure. Its result is an option only because
  \<open>postProcessText\<close> is one.
\<close>

record 'pix OCRProcessor =
  m_initialized :: bool
  pixReadMem :: "string \<Rightarrow> 'pix option"
  pixGetDepth :: "'pix \<Rightarrow> nat"
  pixConvertTo8 :: "'pix \<Rightarrow> 'pix option"
  pixMedianFilter :: "'pix \<Rightarrow> 'pix option"
  pixThresholdToBinary :: "'pix \<Rightarrow> 'pix option"
  GetUTF8Text :: "'pix \<Rightarrow> unit + string option"

definition cleanImage :: "'pix OCRProcessor \<Rightarrow> string \<Rightarrow> 'pix option" where
  "cleanImage p imageData =
     (case pixReadMem p imageData of
        None \<Rightarrow> None
      | Some pix \<Rightarrow>
          let processed =
                (if pixGetDepth p pix \<noteq> 8
                 then (case pixConvertTo8 p pix of Some temp \<Rightarrow> temp | None \<Rightarrow> pix)
                 else pix);
              processed =
                (case pixMedianFilter p processed of
                   Some denoised \<Rightarrow> denoised | None \<Rightarrow> processed);
              processed =
                (case pixThresholdToBinary p processed of
                   Some binary \<Rightarrow> binary | None \<Rightarrow> processed)
          in Some processed)"

definition processImage :: "'pix OCRProcessor \<Rightarrow> string \<Rightarrow> string \<Rightarrow> string option" where
  "processImage p imageData filename =
     (if \<not> m_initialized p then Some []
      else if imageData = [] then Some []
      else
        case cleanImage p imageData of
          None \<Rightarrow> Some []
        | Some cleanedImage \<Rightarrow>
            (case GetUTF8Text p cleanedImage of
               Inl exception \<Rightarrow> Some []
             | Inr outText \<Rightarrow>
                 postProcessText (case outText of Some t \<Rightarrow> t | None \<Rightarrow> [])))"

subsection \<open>The post-processing as a composition of list functions\<close>

text \<open>
  What the loops compute, written on lists: \<open>strip chars\<close> removes the characters of
  \<open>chars\<close> from both ends; \<open>substitute from to\<close> replaces the occurrences of \<open>from\<close>
  from left to right, never looking again at what it has written; \<open>collapse_spaces\<close>
  leaves one space for every run of spaces. \<open>has_three_spaces\<close> holds for a string with
  three spaces in a row.
\<close>

definition strip :: "string \<Rightarrow> string \<Rightarrow> string" where
  "strip chars s =
     rev (dropWhile (\<lambda>c. c \<in> set chars) (rev (dropWhile (\<lambda>c. c \<in> set chars) s)))"

function substitute :: "string \<Rightarrow> string \<Rightarrow> string \<Rightarrow> string" where
  "substitute from to [] = []"
| "substitute from to (c # cs) =
     (if from \<noteq> [] \<and> take (length from) (c # cs) = from
      then to @ substitute from to (drop (length from) (c # cs))
      else c # substitute from to cs)"
  by pat_completeness auto
termination
  by (relation "measure (\<lambda>(from, to, s). length s)") auto

fun collapse_spaces :: "string \<Rightarrow> string" where
  "collapse_spaces (a # b # cs) =
     (if a = CHR '' '' \<and> b = CHR '' '' then collapse_spaces (b # cs)
      else a # collapse_spaces (b # cs))"
| "collapse_spaces cs = cs"

fun has_three_spaces :: "string \<Rightarrow> bool" where
  "has_three_spaces (a # b # c # cs) =
     (a = CHR '' '' \<and> b = CHR '' '' \<and> c = CHR '' '' \<or> has_three_spaces (b # c # cs))"
| "has_three_spaces cs = False"

definition substitute_all :: "(string \<times> string) list \<Rightarrow> string \<Rightarrow> string" where
  "substitute_all table s = fold (\<lambda>(from, to). substitute from to) table s"

text \<open>
  The post-processing as the specification words it: strip whitespace, collapse runs of
  spaces, trim punctuation; no substitution. It is what the code is compared with.
\<close>

definition spec_post_process :: "string \<Rightarrow> string" where
  "spec_post_process s = strip punctuation (collapse_spaces (strip whitespace s))"

lemmas text_defs = strip_def substitute_all_def replacements_def whitespace_def punctuation_def

section \<open>The server host: \<open>main\<close>\<close>

text \<open>
  \<open>std::stoul\<close>, as \<open>main\<close> calls it (base 10): leading whitespace, an optional sign,
  then digits; \<open>std::invalid_argument\<close> without a digit, \<open>std::out_of_range\<close> above
  \<open>ULONG_MAX\<close>; a minus sign negates the value in \<open>unsigned long\<close>. \<open>main\<close> does not
  catch, so an exception ends the process.
\<close>

datatype exception = invalid_argument | out_of_range

definition isspace :: "char \<Rightarrow> bool" where
  "isspace c = (c \<in> set [CHR '' '', CHR 0x09, CHR 0x0A, CHR 0x0B, CHR 0x0C, CHR 0x0D])"

definition isdigit :: "char \<Rightarrow> bool" where
  "isdigit c = (48 \<le> (of_char c :: nat) \<and> (of_char c :: nat) \<le> 57)"

definition digits_value :: "string \<Rightarrow> nat" where
  "digits_value ds = foldl (\<lambda>acc c. 10 * acc + ((of_char c :: nat) - 48)) 0 ds"

definition stoul :: "string \<Rightarrow> exception + nat" where
  "stoul str =
     (let s = dropWhile isspace str;
          negative = (s \<noteq> [] \<and> hd s = CHR ''-'');
          s = (if s \<noteq> [] \<and> (hd s = CHR ''-'' \<or> hd s = CHR ''+'') then tl s else s);
          ds = takeWhile isdigit s
      in if ds = [] then Inl invalid_argument
         else if 2 ^ 64 \<le> digits_value ds then Inl out_of_range
         else Inr (if negative then (2 ^ 64 - digits_value ds) mod 2 ^ 64 else digits_value ds))"

fun find_char :: "string \<Rightarrow> char \<Rightarrow> nat option" where
  "find_char [] ch = None"
| "find_char (c # cs) ch = (if c = ch then Some 0 else map_option Suc (find_char cs ch))"

text \<open>
  The argument loop of \<open>main\<close>, on \<open>argv[1..]\<close>. A flag that takes a value consumes the
  next argument when there is one (\<open>i + 1 < argc\<close>); as the last argument it is skipped.
  \<open>Listen address numThreads\<close> is \<open>OCRServer server(address, numThreads); server.run()\<close>,
  which binds \<open>address\<close>; \<open>Usage\<close> is the \<open>return 0\<close> of \<open>--help\<close>.
\<close>

datatype exit = Listen string nat | Usage | Terminate exception

fun parse_arguments :: "string list \<Rightarrow> string \<Rightarrow> nat \<Rightarrow> exit" where
  "parse_arguments [] address numThreads = Listen address numThreads"
| "parse_arguments [arg] address numThreads =
     (if arg = ''--help'' then Usage else Listen address numThreads)"
| "parse_arguments (arg # next # rest) address numThreads =
     (if arg = ''--address'' then
        let ip = next in parse_arguments rest (ip @ '':50051'') numThreads
      else if arg = ''--port'' then
        let port = next in
        (case find_char address CHR '':'' of
           Some colonPos \<Rightarrow>
             parse_arguments rest (substr address 0 colonPos @ '':'' @ port) numThreads
         | None \<Rightarrow> parse_arguments rest (''0.0.0.0:'' @ port) numThreads)
      else if arg = ''--threads'' then
        (case stoul next of
           Inl e \<Rightarrow> Terminate e
         | Inr n \<Rightarrow> parse_arguments rest address n)
      else if arg = ''--help'' then Usage
      else parse_arguments (next # rest) address numThreads)"

definition main :: "string list \<Rightarrow> exit" where
  "main args = parse_arguments args ''0.0.0.0:50051'' 4"

section \<open>The streaming service: \<open>OCRServiceImpl\<close>\<close>

subsection \<open>Messages and tasks\<close>

text \<open>
  The two messages of \<open>ProcessImages\<close>. A default-constructed \<open>OCRResult\<close> has empty
  strings and \<open>success = False\<close>; the code sets the other fields. A task is what the
  lambda handed to the thread pool captures; \<open>processor\<close> is the index the processor
  pointer was read at.
\<close>

record ImageRequest =
  image_id :: string
  filename :: string
  image_data :: string

record OCRResult =
  result_image_id :: string
  extracted_text :: string
  success :: bool
  error_message :: string

record Task =
  imageId :: string
  task_filename :: string
  imageData :: string
  processor :: "32 word"

definition memory_limit_result :: "string \<Rightarrow> OCRResult" where
  "memory_limit_result iid =
     \<lparr>result_image_id = iid, extracted_text = [], success = False,
      error_message = ''Server memory limit exceeded''\<rparr>"

definition empty_data_result :: "string \<Rightarrow> OCRResult" where
  "empty_data_result iid =
     \<lparr>result_image_id = iid, extracted_text = [], success = False,
      error_message = ''Empty image data''\<rparr>"

definition task_result :: "string \<Rightarrow> string \<Rightarrow> OCRResult" where
  "task_result iid extractedText =
     \<lparr>result_image_id = iid, extracted_text = extractedText,
      success = (extractedText \<noteq> []),
      error_message = (if extractedText = [] then ''OCR failed to extract text'' else [])\<rparr>"

text \<open>
  The body of the task: \<open>processImage\<close>, then the result built from the text. The
  \<open>catch\<close> around \<open>processImage\<close> in the lambda has nothing to catch, since \<open>processImage\<close>
  catches every \<open>std::exception\<close> itself.
\<close>

definition ocr_task :: "'pix OCRProcessor \<Rightarrow> Task \<Rightarrow> OCRResult option" where
  "ocr_task p task =
     map_option (task_result (imageId task))
       (processImage p (imageData task) (task_filename task))"

text \<open>
  Two processors to evaluate the task on: one whose decoder rejects every payload, and
  one that decodes every payload and recognises no text.
\<close>

definition undecodable :: "unit OCRProcessor" where
  "undecodable =
     \<lparr>m_initialized = True, pixReadMem = (\<lambda>bytes. None), pixGetDepth = (\<lambda>pix. 8),
      pixConvertTo8 = (\<lambda>pix. Some pix), pixMedianFilter = (\<lambda>pix. Some pix),
      pixThresholdToBinary = (\<lambda>pix. Some pix), GetUTF8Text = (\<lambda>pix. Inr (Some ''Hello''))\<rparr>"

definition blank_page :: "unit OCRProcessor" where
  "blank_page =
     \<lparr>m_initialized = True, pixReadMem = (\<lambda>bytes. Some ()), pixGetDepth = (\<lambda>pix. 8),
      pixConvertTo8 = (\<lambda>pix. Some pix), pixMedianFilter = (\<lambda>pix. Some pix),
      pixThresholdToBinary = (\<lambda>pix. Some pix), GetUTF8Text = (\<lambda>pix. Inr (Some []))\<rparr>"

subsection \<open>Round-robin processor selection\<close>

text \<open>
  \<^verbatim>\<open>int processorIndex = m_nextProcessorIndex++ % m_processors.size();\<close>
  \<^verbatim>\<open>OCRProcessor* processor = m_processors[processorIndex].get();\<close>

  \<open>m_nextProcessorIndex\<close> is a \<open>std::atomic<int>\<close>, a 32-bit word whose increment
  wraps; \<open>m_processors.size()\<close> is a \<open>size_t\<close> of 64 bits. The usual arithmetic
  conversions turn the \<open>int\<close> operand into \<open>size_t\<close> (sign extension, \<open>scast\<close>), the
  remainder is unsigned, and the result is narrowed to \<open>int\<close> again. The subscript
  operator takes a \<open>size_t\<close>, so the \<open>int\<close> is sign-extended once more; a subscript
  outside the vector is undefined behaviour in C++ and \<open>None\<close> here.
\<close>

definition processorIndex :: "32 word \<Rightarrow> 64 word \<Rightarrow> 32 word" where
  "processorIndex m_next sz = ucast ((scast m_next :: 64 word) mod sz)"

definition processor_at :: "'p list \<Rightarrow> 32 word \<Rightarrow> 'p option" where
  "processor_at m_processors i =
     (let j = unat (scast i :: 64 word)
      in if j < length m_processors then Some (m_processors ! j) else None)"

subsection \<open>One session of \<open>ProcessImages\<close>, as a transition system\<close>

text \<open>
  This subsection is the code of \<open>ProcessImages\<close> for a session that has the service to
  itself: no other call of \<open>ProcessImages\<close> is open and the cleanup thread sleeps. The
  counter, the thread pool and the mutex, which the code shares between all sessions,
  are then touched by this session only. The service with concurrent sessions and the
  cleanup thread follows further down.

  The constants of the service. \<open>g_activeImageSize\<close> is a \<open>std::atomic<size_t>\<close>:
  a 64-bit word, and \<open>size_of\<close> is \<open>imageData.size()\<close>. The per-session \<open>activeTasks\<close>
  and the pool's \<open>m_activeTasks\<close> are \<open>std::atomic<int>\<close>: 32-bit words, compared as
  signed numbers.
\<close>

definition MAX_MEMORY_USAGE :: "64 word" where
  "MAX_MEMORY_USAGE = 500 * 1024 * 1024"

definition MAX_CONCURRENT_TASKS :: "32 word" where
  "MAX_CONCURRENT_TASKS = 4"

definition size_of :: "string \<Rightarrow> 64 word" where
  "size_of s = word_of_nat (length s)"

text \<open>
  A session runs on the thread that called \<open>ProcessImages\<close> (the reader) and on the
  workers of the thread pool. Each thread is at one of a few places of its code:

  \<^item> the reader: at \<open>stream->Read\<close> (\<open>R_Read\<close>); past the memory check, in the loop that
    waits for \<open>activeTasks < MAX_CONCURRENT_TASKS\<close> (\<open>R_RateLimit\<close>); about to lock
    \<open>m_streamMutex\<close> to write a rejection (\<open>R_Lock\<close>); holding the mutex, at
    \<open>stream->Write\<close> (\<open>R_Write\<close>); in \<open>m_threadPool.waitAll()\<close> (\<open>R_WaitAll\<close>); returned
    (\<open>R_Return\<close>);
  \<^item> a worker: waiting for a task (\<open>W_Idle\<close>); inside \<open>processImage\<close> (\<open>W_Task\<close>); about
    to lock the mutex for its result (\<open>W_Lock\<close>); holding it, at \<open>stream->Write\<close>
    (\<open>W_Write\<close>); back in \<open>workerThread\<close>, before \<open>m_activeTasks--\<close> (\<open>W_Finish\<close>).

  The state holds the shared variables under their names in the code. \<open>stream_in\<close> is
  what the client still sends, \<open>stream_out\<close> the calls of \<open>stream->Write\<close> so far, each
  with the result passed and the boolean returned (the code only logs that boolean).
\<close>

datatype tid = Reader | Worker nat

datatype reader_pc =
    R_Read
  | R_RateLimit ImageRequest
  | R_Lock OCRResult
  | R_Write OCRResult
  | R_WaitAll
  | R_Return

datatype worker_pc =
    W_Idle
  | W_Task Task
  | W_Lock OCRResult
  | W_Write OCRResult
  | W_Finish

record server =
  stream_in :: "ImageRequest list"
  stream_out :: "(OCRResult \<times> bool) list"
  g_activeImageSize :: "64 word"
  activeTasks :: "32 word"
  m_nextProcessorIndex :: "32 word"
  m_processors_size :: "64 word"
  m_tasks :: "Task list"
  m_activeTasks :: "32 word"
  m_streamMutex :: "tid option"
  reader :: reader_pc
  m_workers :: "worker_pc list"

text \<open>
  \<open>ThreadPool::enqueue\<close>: push the task, count it. There is no capacity and no wait.
\<close>

definition enqueue :: "Task \<Rightarrow> server \<Rightarrow> server" where
  "enqueue task s = s\<lparr>m_tasks := m_tasks s @ [task], m_activeTasks := m_activeTasks s + 1\<rparr>"

text \<open>
  The steps of the reader. Each is what the thread does between two places, and is
  \<open>None\<close> when the thread is elsewhere or has to wait.

  \<^item> \<open>rd_read\<close>: \<open>stream->Read\<close>; at the end of the stream go to \<open>waitAll\<close>; otherwise
    compute \<open>currentMemory\<close> and compare it with \<open>MAX_MEMORY_USAGE\<close>.
  \<^item> \<open>rd_dispatch\<close>: leave the waiting loop once \<open>activeTasks < MAX_CONCURRENT_TASKS\<close>;
    an empty payload is rejected here; otherwise select the processor, count the task
    and its bytes, and enqueue it.
  \<^item> \<open>rd_lock\<close>, \<open>rd_write\<close>: the \<open>std::lock_guard\<close> and the \<open>Write\<close> of a rejection;
    the guard is released at the \<open>continue\<close>.
  \<^item> \<open>rd_waitAll\<close>: \<open>waitAll\<close> returns when the queue is empty and \<open>m_activeTasks\<close> is 0.
\<close>

definition rd_read :: "server \<Rightarrow> server option" where
  "rd_read s =
     (case reader s of
        R_Read \<Rightarrow>
          (case stream_in s of
             [] \<Rightarrow> Some (s\<lparr>reader := R_WaitAll\<rparr>)
           | request # rest \<Rightarrow>
               let currentMemory = g_activeImageSize s + size_of (image_data request)
               in if currentMemory > MAX_MEMORY_USAGE
                  then Some (s\<lparr>stream_in := rest,
                               reader := R_Lock (memory_limit_result (image_id request))\<rparr>)
                  else Some (s\<lparr>stream_in := rest, reader := R_RateLimit request\<rparr>))
      | _ \<Rightarrow> None)"

definition rd_dispatch :: "server \<Rightarrow> server option" where
  "rd_dispatch s =
     (case reader s of
        R_RateLimit request \<Rightarrow>
          if MAX_CONCURRENT_TASKS \<le>s activeTasks s then None
          else if image_data request = []
          then Some (s\<lparr>reader := R_Lock (empty_data_result (image_id request))\<rparr>)
          else
            let idx = processorIndex (m_nextProcessorIndex s) (m_processors_size s);
                task = \<lparr>imageId = image_id request, task_filename = filename request,
                        imageData = image_data request, processor = idx\<rparr>
            in Some (enqueue task
                       (s\<lparr>m_nextProcessorIndex := m_nextProcessorIndex s + 1,
                          activeTasks := activeTasks s + 1,
                          g_activeImageSize := g_activeImageSize s + size_of (image_data request),
                          reader := R_Read\<rparr>))
      | _ \<Rightarrow> None)"

definition rd_lock :: "server \<Rightarrow> server option" where
  "rd_lock s =
     (case reader s of
        R_Lock result \<Rightarrow>
          if m_streamMutex s = None
          then Some (s\<lparr>m_streamMutex := Some Reader, reader := R_Write result\<rparr>)
          else None
      | _ \<Rightarrow> None)"

definition rd_write :: "bool \<Rightarrow> server \<Rightarrow> server option" where
  "rd_write ok s =
     (case reader s of
        R_Write result \<Rightarrow>
          Some (s\<lparr>stream_out := stream_out s @ [(result, ok)],
                   m_streamMutex := None, reader := R_Read\<rparr>)
      | _ \<Rightarrow> None)"

definition rd_waitAll :: "server \<Rightarrow> server option" where
  "rd_waitAll s =
     (case reader s of
        R_WaitAll \<Rightarrow>
          if m_tasks s = [] \<and> m_activeTasks s = 0
          then Some (s\<lparr>reader := R_Return\<rparr>) else None
      | _ \<Rightarrow> None)"

text \<open>
  The steps of worker \<open>i\<close>: \<open>wk_pop\<close> takes the front of the queue; \<open>wk_run\<close> is the
  return of \<open>processImage\<close> with some text (the empty text when it failed or threw),
  followed by \<open>g_activeImageSize -= imageData.size()\<close>, \<open>activeTasks--\<close> and the
  construction of the result; \<open>wk_lock\<close> and \<open>wk_write\<close> are the guarded \<open>Write\<close>;
  \<open>wk_finish\<close> is the \<open>m_activeTasks--\<close> of \<open>workerThread\<close>.
\<close>

definition wk_pop :: "nat \<Rightarrow> server \<Rightarrow> server option" where
  "wk_pop i s =
     (if i < length (m_workers s) then
        (case (m_workers s ! i, m_tasks s) of
           (W_Idle, task # rest) \<Rightarrow>
              Some (s\<lparr>m_tasks := rest, m_workers := (m_workers s)[i := W_Task task]\<rparr>)
         | _ \<Rightarrow> None)
      else None)"

definition wk_run :: "nat \<Rightarrow> string \<Rightarrow> server \<Rightarrow> server option" where
  "wk_run i extractedText s =
     (if i < length (m_workers s) then
        (case m_workers s ! i of
           W_Task task \<Rightarrow>
              Some (s\<lparr>g_activeImageSize := g_activeImageSize s - size_of (imageData task),
                       activeTasks := activeTasks s - 1,
                       m_workers := (m_workers s)[i := W_Lock (task_result (imageId task) extractedText)]\<rparr>)
         | _ \<Rightarrow> None)
      else None)"

definition wk_lock :: "nat \<Rightarrow> server \<Rightarrow> server option" where
  "wk_lock i s =
     (if i < length (m_workers s) then
        (case m_workers s ! i of
           W_Lock result \<Rightarrow>
              if m_streamMutex s = None
              then Some (s\<lparr>m_streamMutex := Some (Worker i),
                             m_workers := (m_workers s)[i := W_Write result]\<rparr>)
              else None
         | _ \<Rightarrow> None)
      else None)"

definition wk_write :: "nat \<Rightarrow> bool \<Rightarrow> server \<Rightarrow> server option" where
  "wk_write i ok s =
     (if i < length (m_workers s) then
        (case m_workers s ! i of
           W_Write result \<Rightarrow>
              Some (s\<lparr>stream_out := stream_out s @ [(result, ok)],
                       m_streamMutex := None,
                       m_workers := (m_workers s)[i := W_Finish]\<rparr>)
         | _ \<Rightarrow> None)
      else None)"

definition wk_finish :: "nat \<Rightarrow> server \<Rightarrow> server option" where
  "wk_finish i s =
     (if i < length (m_workers s) then
        (case m_workers s ! i of
           W_Finish \<Rightarrow>
              Some (s\<lparr>m_activeTasks := m_activeTasks s - 1,
                       m_workers := (m_workers s)[i := W_Idle]\<rparr>)
         | _ \<Rightarrow> None)
      else None)"

text \<open>
  An event names the thread that moves and what the environment decides (the text
  recognised, the boolean \<open>Write\<close> returns). A schedule is a list of events; \<open>run\<close>
  is \<open>None\<close> for a schedule with an event that is not enabled.
\<close>

datatype event =
    Rd_Read | Rd_Dispatch | Rd_Lock | Rd_Write bool | Rd_WaitAll
  | Wk_Pop nat | Wk_Run nat string | Wk_Lock nat | Wk_Write nat bool | Wk_Finish nat

fun step :: "event \<Rightarrow> server \<Rightarrow> server option" where
  "step Rd_Read s = rd_read s"
| "step Rd_Dispatch s = rd_dispatch s"
| "step Rd_Lock s = rd_lock s"
| "step (Rd_Write ok) s = rd_write ok s"
| "step Rd_WaitAll s = rd_waitAll s"
| "step (Wk_Pop i) s = wk_pop i s"
| "step (Wk_Run i text) s = wk_run i text s"
| "step (Wk_Lock i) s = wk_lock i s"
| "step (Wk_Write i ok) s = wk_write i ok s"
| "step (Wk_Finish i) s = wk_finish i s"

fun run :: "event list \<Rightarrow> server \<Rightarrow> server option" where
  "run [] s = Some s"
| "run (e # es) s = (case step e s of None \<Rightarrow> None | Some s' \<Rightarrow> run es s')"

text \<open>
  The state in which \<open>ProcessImages\<close> is entered by a session that has the service to
  itself: the byte counter at \<open>c0\<close>, \<open>nproc\<close> processors, \<open>nthreads\<close> idle workers, and
  the requests the client will send.
\<close>

definition ProcessImages :: "64 word \<Rightarrow> 64 word \<Rightarrow> nat \<Rightarrow> ImageRequest list \<Rightarrow> server" where
  "ProcessImages c0 nproc nthreads requests =
     \<lparr>stream_in = requests, stream_out = [], g_activeImageSize = c0, activeTasks = 0,
      m_nextProcessorIndex = 0, m_processors_size = nproc, m_tasks = [], m_activeTasks = 0,
      m_streamMutex = None, reader = R_Read, m_workers = replicate nthreads W_Idle\<rparr>"

subsection \<open>\<open>ProcessImages\<close> without governor and mutex (the OCRService.cpp of part_008)\<close>

text \<open>
  The other \<open>OCRService.cpp\<close> of the repository has the same reader loop without the
  memory check, the rate limit and the empty-payload check; it returns at the end of
  the stream without \<open>waitAll\<close>. Its task calls \<open>stream->Write\<close> directly after
  \<open>processImage\<close>, with no lock: a worker goes from \<open>W_Task\<close> to \<open>W_Write\<close>, and
  \<open>m_streamMutex\<close> is never touched. The thread pool is the same.
\<close>

definition rd_read_simple :: "server \<Rightarrow> server option" where
  "rd_read_simple s =
     (case reader s of
        R_Read \<Rightarrow>
          (case stream_in s of
             [] \<Rightarrow> Some (s\<lparr>reader := R_Return\<rparr>)
           | request # rest \<Rightarrow>
               let idx = processorIndex (m_nextProcessorIndex s) (m_processors_size s);
                   task = \<lparr>imageId = image_id request, task_filename = filename request,
                           imageData = image_data request, processor = idx\<rparr>
               in Some (enqueue task
                          (s\<lparr>stream_in := rest,
                             m_nextProcessorIndex := m_nextProcessorIndex s + 1\<rparr>)))
      | _ \<Rightarrow> None)"

definition wk_run_simple :: "nat \<Rightarrow> string \<Rightarrow> server \<Rightarrow> server option" where
  "wk_run_simple i extractedText s =
     (if i < length (m_workers s) then
        (case m_workers s ! i of
           W_Task task \<Rightarrow>
              Some (s\<lparr>m_workers :=
                       (m_workers s)[i := W_Write (task_result (imageId task) extractedText)]\<rparr>)
         | _ \<Rightarrow> None)
      else None)"

definition wk_write_simple :: "nat \<Rightarrow> bool \<Rightarrow> server \<Rightarrow> server option" where
  "wk_write_simple i ok s =
     (if i < length (m_workers s) then
        (case m_workers s ! i of
           W_Write result \<Rightarrow>
              Some (s\<lparr>stream_out := stream_out s @ [(result, ok)],
                       m_workers := (m_workers s)[i := W_Finish]\<rparr>)
         | _ \<Rightarrow> None)
      else None)"

fun step_simple :: "event \<Rightarrow> server \<Rightarrow> server option" where
  "step_simple Rd_Read s = rd_read_simple s"
| "step_simple (Wk_Pop i) s = wk_pop i s"
| "step_simple (Wk_Run i extractedText) s = wk_run_simple i extractedText s"
| "step_simple (Wk_Write i ok) s = wk_write_simple i ok s"
| "step_simple (Wk_Finish i) s = wk_finish i s"
| "step_simple _ s = None"

fun run_simple :: "event list \<Rightarrow> server \<Rightarrow> server option" where
  "run_simple [] s = Some s"
| "run_simple (e # es) s =
     (case step_simple e s of None \<Rightarrow> None | Some s' \<Rightarrow> run_simple es s')"

subsection \<open>What every reachable state of one session satisfies\<close>

text \<open>
  The quantities the invariants speak about, read off a state: the bytes and the number
  of the tasks that are queued or inside \<open>processImage\<close> (\<open>in_flight_bytes\<close>,
  \<open>in_flight\<close>); the tasks the pool has not finished, which are those queued and one for
  each worker that is not idle (\<open>unfinished\<close>); the image ids of everything that is
  still to be read, on its way, or written (\<open>pending_ids\<close>); and the number of threads
  standing at \<open>stream->Write\<close> (\<open>writers\<close>).

  The invariants: \<open>g_activeImageSize\<close> is its initial value plus the bytes in flight and
  stays within the limit (\<open>inv_counter\<close>); \<open>activeTasks\<close> counts the tasks in flight, at
  most 4 (\<open>inv_active\<close>); \<open>m_activeTasks\<close> counts the unfinished tasks (\<open>inv_pool\<close>); the
  mutex is held exactly when one thread is at \<open>stream->Write\<close> (\<open>inv_mutex\<close>); no image
  id is lost or duplicated (\<open>inv_ids\<close>); every request, task and result in the state
  comes from a request of the session (\<open>inv_shape\<close>); and the reader is past the loop
  only when the stream is exhausted, and has returned only when the pool is drained
  (\<open>inv_done\<close>).

  \<open>valid\<close> collects what is assumed of a session: the counter starts within the limit,
  every payload is shorter than \<open>2^63\<close> bytes, there are between 1 and \<open>2^31\<close>
  processors, and between 1 and \<open>2^31 - 1\<close> worker threads, so that the \<open>int\<close> counters
  do not wrap.
\<close>

fun worker_bytes :: "worker_pc \<Rightarrow> nat" where
  "worker_bytes (W_Task task) = length (imageData task)"
| "worker_bytes _ = 0"

fun worker_tasks :: "worker_pc \<Rightarrow> nat" where
  "worker_tasks (W_Task task) = 1"
| "worker_tasks _ = 0"

fun worker_busy :: "worker_pc \<Rightarrow> nat" where
  "worker_busy W_Idle = 0"
| "worker_busy _ = 1"

fun worker_ids :: "worker_pc \<Rightarrow> string multiset" where
  "worker_ids (W_Task task) = {#imageId task#}"
| "worker_ids (W_Lock result) = {#result_image_id result#}"
| "worker_ids (W_Write result) = {#result_image_id result#}"
| "worker_ids _ = {#}"

fun reader_ids :: "reader_pc \<Rightarrow> string multiset" where
  "reader_ids (R_RateLimit request) = {#image_id request#}"
| "reader_ids (R_Lock result) = {#result_image_id result#}"
| "reader_ids (R_Write result) = {#result_image_id result#}"
| "reader_ids _ = {#}"

fun reader_bytes :: "reader_pc \<Rightarrow> nat" where
  "reader_bytes (R_RateLimit request) = length (image_data request)"
| "reader_bytes _ = 0"

definition in_flight_bytes :: "server \<Rightarrow> nat" where
  "in_flight_bytes s =
     (\<Sum>task\<leftarrow>m_tasks s. length (imageData task)) + (\<Sum>w\<leftarrow>m_workers s. worker_bytes w)"

definition in_flight :: "server \<Rightarrow> nat" where
  "in_flight s = length (m_tasks s) + (\<Sum>w\<leftarrow>m_workers s. worker_tasks w)"

definition unfinished :: "server \<Rightarrow> nat" where
  "unfinished s = length (m_tasks s) + (\<Sum>w\<leftarrow>m_workers s. worker_busy w)"

definition pending_ids :: "server \<Rightarrow> string multiset" where
  "pending_ids s =
     mset (map image_id (stream_in s)) + reader_ids (reader s)
     + mset (map imageId (m_tasks s)) + (\<Sum>w\<leftarrow>m_workers s. worker_ids w)
     + mset (map (\<lambda>w. result_image_id (fst w)) (stream_out s))"

definition inv_counter :: "64 word \<Rightarrow> server \<Rightarrow> bool" where
  "inv_counter c0 s =
     (unat (g_activeImageSize s) = unat c0 + in_flight_bytes s
      \<and> unat c0 + in_flight_bytes s + reader_bytes (reader s) \<le> unat MAX_MEMORY_USAGE)"

definition inv_active :: "server \<Rightarrow> bool" where
  "inv_active s = (activeTasks s = word_of_nat (in_flight s) \<and> in_flight s \<le> 4)"

definition inv_pool :: "server \<Rightarrow> bool" where
  "inv_pool s = (m_activeTasks s = word_of_nat (unfinished s))"

fun worker_writing :: "worker_pc \<Rightarrow> nat" where
  "worker_writing (W_Write result) = 1"
| "worker_writing _ = 0"

fun reader_writing :: "reader_pc \<Rightarrow> nat" where
  "reader_writing (R_Write result) = 1"
| "reader_writing _ = 0"

definition writers :: "server \<Rightarrow> nat" where
  "writers s = reader_writing (reader s) + (\<Sum>w\<leftarrow>m_workers s. worker_writing w)"

definition inv_mutex :: "server \<Rightarrow> bool" where
  "inv_mutex s = (writers s = (case m_streamMutex s of None \<Rightarrow> 0 | Some holder \<Rightarrow> 1))"

definition inv_ids :: "ImageRequest list \<Rightarrow> server \<Rightarrow> bool" where
  "inv_ids requests s = (pending_ids s = mset (map image_id requests))"

definition good_task :: "ImageRequest list \<Rightarrow> 64 word \<Rightarrow> Task \<Rightarrow> bool" where
  "good_task requests nproc task =
     (imageData task \<noteq> [] \<and> length (imageData task) < 2 ^ 63
      \<and> unat (scast (processor task) :: 64 word) < unat nproc
      \<and> (\<exists>request\<in>set requests.
            image_id request = imageId task \<and> image_data request = imageData task))"

definition good_result :: "ImageRequest list \<Rightarrow> OCRResult \<Rightarrow> bool" where
  "good_result requests result =
     (\<exists>request\<in>set requests.
        if image_data request = [] then result = empty_data_result (image_id request)
        else result = memory_limit_result (image_id request)
             \<or> result = task_result (image_id request) (extracted_text result))"

fun worker_ok :: "ImageRequest list \<Rightarrow> 64 word \<Rightarrow> worker_pc \<Rightarrow> bool" where
  "worker_ok requests nproc (W_Task task) = good_task requests nproc task"
| "worker_ok requests nproc (W_Lock result) = good_result requests result"
| "worker_ok requests nproc (W_Write result) = good_result requests result"
| "worker_ok requests nproc _ = True"

fun reader_ok :: "ImageRequest list \<Rightarrow> reader_pc \<Rightarrow> bool" where
  "reader_ok requests (R_RateLimit request) = (request \<in> set requests)"
| "reader_ok requests (R_Lock result) = good_result requests result"
| "reader_ok requests (R_Write result) = good_result requests result"
| "reader_ok requests _ = True"

definition inv_shape :: "ImageRequest list \<Rightarrow> 64 word \<Rightarrow> nat \<Rightarrow> server \<Rightarrow> bool" where
  "inv_shape requests nproc nthreads s =
     (set (stream_in s) \<subseteq> set requests
      \<and> reader_ok requests (reader s)
      \<and> list_all (good_task requests nproc) (m_tasks s)
      \<and> list_all (worker_ok requests nproc) (m_workers s)
      \<and> list_all (\<lambda>w. good_result requests (fst w)) (stream_out s)
      \<and> length (m_workers s) = nthreads
      \<and> m_processors_size s = nproc)"

definition inv_done :: "server \<Rightarrow> bool" where
  "inv_done s =
     ((if reader s = R_WaitAll \<or> reader s = R_Return then stream_in s = [] else True)
      \<and> (if reader s = R_Return then unfinished s = 0 else True))"

definition valid :: "64 word \<Rightarrow> ImageRequest list \<Rightarrow> 64 word \<Rightarrow> nat \<Rightarrow> bool" where
  "valid c0 requests nproc nthreads =
     (unat c0 \<le> unat MAX_MEMORY_USAGE
      \<and> list_all (\<lambda>request. length (image_data request) < 2 ^ 63) requests
      \<and> 0 < unat nproc \<and> unat nproc \<le> 2 ^ 31
      \<and> 0 < nthreads \<and> nthreads < 2 ^ 31)"

definition inv :: "64 word \<Rightarrow> ImageRequest list \<Rightarrow> 64 word \<Rightarrow> nat \<Rightarrow> server \<Rightarrow> bool" where
  "inv c0 requests nproc nthreads s =
     (inv_counter c0 s \<and> inv_active s \<and> inv_pool s \<and> inv_mutex s
      \<and> inv_ids requests s \<and> inv_shape requests nproc nthreads s \<and> inv_done s)"

subsection \<open>A bound on the work left\<close>

text \<open>
  Every step of a session decreases \<open>weight\<close>: a request still to be read costs 8 steps
  at most, a queued task 5, and each thread what is left of its current piece of work.
\<close>

fun reader_weight :: "reader_pc \<Rightarrow> nat" where
  "reader_weight R_Read = 2"
| "reader_weight (R_RateLimit request) = 9"
| "reader_weight (R_Lock result) = 4"
| "reader_weight (R_Write result) = 3"
| "reader_weight R_WaitAll = 1"
| "reader_weight R_Return = 0"

fun worker_weight :: "worker_pc \<Rightarrow> nat" where
  "worker_weight W_Idle = 0"
| "worker_weight (W_Task task) = 4"
| "worker_weight (W_Lock result) = 3"
| "worker_weight (W_Write result) = 2"
| "worker_weight W_Finish = 1"

definition weight :: "server \<Rightarrow> nat" where
  "weight s =
     8 * length (stream_in s) + reader_weight (reader s) + 5 * length (m_tasks s)
     + (\<Sum>w\<leftarrow>m_workers s. worker_weight w)"

subsection \<open>The service with concurrent sessions and the cleanup thread\<close>

text \<open>
  \<open>OCRServer::run\<close> registers one \<open>OCRServiceImpl\<close>, and every call of \<open>ProcessImages\<close>
  runs on a thread of its own, so several sessions are open on the same object at
  once. They share the file-scope counter \<open>g_activeImageSize\<close> and the members
  \<open>m_threadPool\<close>, \<open>m_nextProcessorIndex\<close>, \<open>m_processors\<close> and \<open>m_streamMutex\<close>; each has its
  own stream and its own local \<open>activeTasks\<close>. Beside them runs the thread that the
  constructor starts on \<open>memoryCleanupTask\<close>.

  A \<open>job\<close> is the lambda enqueued for one request, with what it captures: \<open>stream\<close> and
  the reference to \<open>activeTasks\<close> (here the number of the session), the raw pointer
  \<open>processor\<close>, and the three strings. An \<open>OCRProcessor\<close> object is a natural number,
  different for every object ever created: \<open>svc_processors\<close> lists the objects the
  vector owns now, \<open>svc_created\<close> counts the objects created so far. The fields carry
  their names from the code behind a prefix for their owner, since the plain names are
  those of the single session above: \<open>global_\<close> for the file-scope counter, \<open>svc_\<close> for
  members of the service, \<open>pool_\<close> for members of the thread pool, \<open>session_\<close> for the
  stream and the locals of one call. A session is at one of the places \<open>reader_pc\<close> of
  the reader above; a worker at one of \<open>pool_pc\<close>, which are those of \<open>worker_pc\<close> with
  the session written to; the cleanup thread sleeps or is at element \<open>i\<close> of its loop
  over \<open>m_processors\<close>.
\<close>

datatype thread = Session_thread nat | Pool_thread nat

record job =
  job_stream :: nat
  job_processor :: nat
  job_imageId :: string
  job_filename :: string
  job_imageData :: string

datatype pool_pc =
    P_Idle
  | P_Task job
  | P_Lock nat OCRResult
  | P_Write nat OCRResult
  | P_Finish

datatype cleanup_pc = C_Sleep | C_Recreate nat

record session =
  session_in :: "ImageRequest list"
  session_out :: "(OCRResult \<times> bool) list"
  session_activeTasks :: "32 word"
  session_reader :: reader_pc

record service =
  sessions :: "session list"
  global_activeImageSize :: "64 word"
  svc_nextProcessorIndex :: "32 word"
  svc_processors :: "nat list"
  svc_created :: nat
  svc_streamMutex :: "thread option"
  svc_cleanup :: cleanup_pc
  pool_tasks :: "job list"
  pool_activeTasks :: "32 word"
  pool_workers :: "pool_pc list"
  undefined_behaviour :: bool

text \<open>
  The steps of session \<open>k\<close> are those of the reader above, on the shared state.
  \<open>session_read\<close> compares \<open>g_activeImageSize + imageData.size()\<close> with the limit;
  \<open>session_dispatch\<close>, which comes after the wait for \<open>activeTasks < MAX_CONCURRENT_TASKS\<close>,
  is where the size is added. It also reads the pointer
  \<open>m_processors[processorIndex].get()\<close>; a subscript outside the vector is undefined
  behaviour.
\<close>

definition pool_enqueue :: "job \<Rightarrow> service \<Rightarrow> service" where
  "pool_enqueue task S =
     S\<lparr>pool_tasks := pool_tasks S @ [task], pool_activeTasks := pool_activeTasks S + 1\<rparr>"

definition session_read :: "nat \<Rightarrow> service \<Rightarrow> service option" where
  "session_read k S =
     (if k < length (sessions S) then
        let c = sessions S ! k in
        (case session_reader c of
           R_Read \<Rightarrow>
             (case session_in c of
                [] \<Rightarrow> Some (S\<lparr>sessions := (sessions S)[k := c\<lparr>session_reader := R_WaitAll\<rparr>]\<rparr>)
              | request # rest \<Rightarrow>
                  let currentMemory = global_activeImageSize S + size_of (image_data request)
                  in if currentMemory > MAX_MEMORY_USAGE
                     then Some (S\<lparr>sessions := (sessions S)
                                  [k := c\<lparr>session_in := rest,
                                          session_reader :=
                                            R_Lock (memory_limit_result (image_id request))\<rparr>]\<rparr>)
                     else Some (S\<lparr>sessions := (sessions S)
                                  [k := c\<lparr>session_in := rest,
                                          session_reader := R_RateLimit request\<rparr>]\<rparr>))
         | _ \<Rightarrow> None)
      else None)"

definition session_dispatch :: "nat \<Rightarrow> service \<Rightarrow> service option" where
  "session_dispatch k S =
     (if k < length (sessions S) then
        let c = sessions S ! k in
        (case session_reader c of
           R_RateLimit request \<Rightarrow>
             if MAX_CONCURRENT_TASKS \<le>s session_activeTasks c then None
             else if image_data request = []
             then Some (S\<lparr>sessions := (sessions S)
                          [k := c\<lparr>session_reader :=
                                    R_Lock (empty_data_result (image_id request))\<rparr>]\<rparr>)
             else
               (case processor_at (svc_processors S)
                       (processorIndex (svc_nextProcessorIndex S)
                          (word_of_nat (length (svc_processors S)))) of
                  None \<Rightarrow> Some (S\<lparr>undefined_behaviour := True\<rparr>)
                | Some object \<Rightarrow>
                    Some (pool_enqueue
                            \<lparr>job_stream = k, job_processor = object,
                             job_imageId = image_id request, job_filename = filename request,
                             job_imageData = image_data request\<rparr>
                            (S\<lparr>svc_nextProcessorIndex := svc_nextProcessorIndex S + 1,
                               sessions := (sessions S)
                                 [k := c\<lparr>session_activeTasks := session_activeTasks c + 1,
                                         session_reader := R_Read\<rparr>],
                               global_activeImageSize :=
                                 global_activeImageSize S + size_of (image_data request)\<rparr>)))
         | _ \<Rightarrow> None)
      else None)"

definition session_lock :: "nat \<Rightarrow> service \<Rightarrow> service option" where
  "session_lock k S =
     (if k < length (sessions S) then
        let c = sessions S ! k in
        (case session_reader c of
           R_Lock result \<Rightarrow>
             if svc_streamMutex S = None
             then Some (S\<lparr>svc_streamMutex := Some (Session_thread k),
                           sessions := (sessions S)[k := c\<lparr>session_reader := R_Write result\<rparr>]\<rparr>)
             else None
         | _ \<Rightarrow> None)
      else None)"

definition session_write :: "nat \<Rightarrow> bool \<Rightarrow> service \<Rightarrow> service option" where
  "session_write k ok S =
     (if k < length (sessions S) then
        let c = sessions S ! k in
        (case session_reader c of
           R_Write result \<Rightarrow>
             Some (S\<lparr>svc_streamMutex := None,
                     sessions := (sessions S)
                       [k := c\<lparr>session_out := session_out c @ [(result, ok)],
                               session_reader := R_Read\<rparr>]\<rparr>)
         | _ \<Rightarrow> None)
      else None)"

definition session_waitAll :: "nat \<Rightarrow> service \<Rightarrow> service option" where
  "session_waitAll k S =
     (if k < length (sessions S) then
        let c = sessions S ! k in
        (case session_reader c of
           R_WaitAll \<Rightarrow>
             if pool_tasks S = [] \<and> pool_activeTasks S = 0
             then Some (S\<lparr>sessions := (sessions S)[k := c\<lparr>session_reader := R_Return\<rparr>]\<rparr>)
             else None
         | _ \<Rightarrow> None)
      else None)"

text \<open>
  The steps of worker \<open>i\<close>. \<open>pool_run\<close> is the return of \<open>processor->processImage\<close>,
  called through the pointer the job captured. When the vector no longer owns the
  object, the object has been destroyed (the vector holds \<open>std::unique_ptr\<close>s), and a
  call on it is undefined behaviour. Otherwise the job subtracts its size from the
  counter, decrements the \<open>activeTasks\<close> of its session and builds the result.
\<close>

definition pool_pop :: "nat \<Rightarrow> service \<Rightarrow> service option" where
  "pool_pop i S =
     (if i < length (pool_workers S) then
        (case (pool_workers S ! i, pool_tasks S) of
           (P_Idle, task # rest) \<Rightarrow>
              Some (S\<lparr>pool_tasks := rest, pool_workers := (pool_workers S)[i := P_Task task]\<rparr>)
         | _ \<Rightarrow> None)
      else None)"

definition pool_run :: "nat \<Rightarrow> string \<Rightarrow> service \<Rightarrow> service option" where
  "pool_run i extractedText S =
     (if i < length (pool_workers S) then
        (case pool_workers S ! i of
           P_Task task \<Rightarrow>
              if job_processor task \<notin> set (svc_processors S)
              then Some (S\<lparr>undefined_behaviour := True\<rparr>)
              else
                let k = job_stream task; c = sessions S ! k in
                Some (S\<lparr>global_activeImageSize :=
                          global_activeImageSize S - size_of (job_imageData task),
                        sessions := (sessions S)
                          [k := c\<lparr>session_activeTasks := session_activeTasks c - 1\<rparr>],
                        pool_workers := (pool_workers S)
                          [i := P_Lock k (task_result (job_imageId task) extractedText)]\<rparr>)
         | _ \<Rightarrow> None)
      else None)"

definition pool_lock :: "nat \<Rightarrow> service \<Rightarrow> service option" where
  "pool_lock i S =
     (if i < length (pool_workers S) then
        (case pool_workers S ! i of
           P_Lock k result \<Rightarrow>
              if svc_streamMutex S = None
              then Some (S\<lparr>svc_streamMutex := Some (Pool_thread i),
                            pool_workers := (pool_workers S)[i := P_Write k result]\<rparr>)
              else None
         | _ \<Rightarrow> None)
      else None)"

definition pool_write :: "nat \<Rightarrow> bool \<Rightarrow> service \<Rightarrow> service option" where
  "pool_write i ok S =
     (if i < length (pool_workers S) then
        (case pool_workers S ! i of
           P_Write k result \<Rightarrow>
              let c = sessions S ! k in
              Some (S\<lparr>svc_streamMutex := None,
                      sessions := (sessions S)
                        [k := c\<lparr>session_out := session_out c @ [(result, ok)]\<rparr>],
                      pool_workers := (pool_workers S)[i := P_Finish]\<rparr>)
         | _ \<Rightarrow> None)
      else None)"

definition pool_finish :: "nat \<Rightarrow> service \<Rightarrow> service option" where
  "pool_finish i S =
     (if i < length (pool_workers S) then
        (case pool_workers S ! i of
           P_Finish \<Rightarrow>
              Some (S\<lparr>pool_activeTasks := pool_activeTasks S - 1,
                      pool_workers := (pool_workers S)[i := P_Idle]\<rparr>)
         | _ \<Rightarrow> None)
      else None)"

text \<open>
  The cleanup thread. \<open>cleanup_wake\<close> is the end of the 30 second sleep, which does not
  look at the sessions or at the pool. \<open>cleanup_recreate\<close> is one iteration of
  \<^verbatim>\<open>for (auto& processor : m_processors) { processor = std::make_unique<OCRProcessor>(); ... }\<close>
  the assignment creates a new object and destroys the one the element owned.
\<close>

definition cleanup_wake :: "service \<Rightarrow> service option" where
  "cleanup_wake S =
     (case svc_cleanup S of
        C_Sleep \<Rightarrow> Some (S\<lparr>svc_cleanup := C_Recreate 0\<rparr>)
      | _ \<Rightarrow> None)"

definition cleanup_recreate :: "service \<Rightarrow> service option" where
  "cleanup_recreate S =
     (case svc_cleanup S of
        C_Recreate i \<Rightarrow>
          if i < length (svc_processors S)
          then Some (S\<lparr>svc_processors := (svc_processors S)[i := svc_created S],
                        svc_created := svc_created S + 1,
                        svc_cleanup := C_Recreate (i + 1)\<rparr>)
          else Some (S\<lparr>svc_cleanup := C_Sleep\<rparr>)
      | _ \<Rightarrow> None)"

text \<open>
  An action names the thread that moves. After undefined behaviour the model says
  nothing more about the program: no step is enabled.
\<close>

datatype action =
    Session_Read nat | Session_Dispatch nat | Session_Lock nat | Session_Write nat bool
  | Session_WaitAll nat
  | Pool_Pop nat | Pool_Run nat string | Pool_Lock nat | Pool_Write nat bool | Pool_Finish nat
  | Cleanup_Wake | Cleanup_Recreate

fun action_step :: "action \<Rightarrow> service \<Rightarrow> service option" where
  "action_step (Session_Read k) S = session_read k S"
| "action_step (Session_Dispatch k) S = session_dispatch k S"
| "action_step (Session_Lock k) S = session_lock k S"
| "action_step (Session_Write k ok) S = session_write k ok S"
| "action_step (Session_WaitAll k) S = session_waitAll k S"
| "action_step (Pool_Pop i) S = pool_pop i S"
| "action_step (Pool_Run i extractedText) S = pool_run i extractedText S"
| "action_step (Pool_Lock i) S = pool_lock i S"
| "action_step (Pool_Write i ok) S = pool_write i ok S"
| "action_step (Pool_Finish i) S = pool_finish i S"
| "action_step Cleanup_Wake S = cleanup_wake S"
| "action_step Cleanup_Recreate S = cleanup_recreate S"

definition service_step :: "action \<Rightarrow> service \<Rightarrow> service option" where
  "service_step a S = (if undefined_behaviour S then None else action_step a S)"

fun service_run :: "action list \<Rightarrow> service \<Rightarrow> service option" where
  "service_run [] S = Some S"
| "service_run (a # as) S =
     (case service_step a S of None \<Rightarrow> None | Some S' \<Rightarrow> service_run as S')"

text \<open>
  The service after its constructor, with the sessions that will be opened on it, each
  given by the requests its client sends: the counter is 0, there are \<open>numProcessors\<close>
  processors (those whose \<open>initialize\<close> succeeded) and \<open>numThreads\<close> idle workers, and the
  cleanup thread sleeps. A session that is opened later is one whose first step comes
  later in the schedule.
\<close>

definition OCRServiceImpl :: "nat \<Rightarrow> nat \<Rightarrow> ImageRequest list list \<Rightarrow> service" where
  "OCRServiceImpl numProcessors numThreads streams =
     \<lparr>sessions = map (\<lambda>requests. \<lparr>session_in = requests, session_out = [],
                                    session_activeTasks = 0, session_reader = R_Read\<rparr>) streams,
      global_activeImageSize = 0, svc_nextProcessorIndex = 0,
      svc_processors = [0..<numProcessors], svc_created = numProcessors,
      svc_streamMutex = None, svc_cleanup = C_Sleep,
      pool_tasks = [], pool_activeTasks = 0, pool_workers = replicate numThreads P_Idle,
      undefined_behaviour = False\<rparr>"





fun pool_bytes :: "pool_pc \<Rightarrow> nat" where
  "pool_bytes (P_Task task) = length (job_imageData task)"
| "pool_bytes _ = 0"

definition bytes_in_flight :: "service \<Rightarrow> nat" where
  "bytes_in_flight S =
     (\<Sum>task\<leftarrow>pool_tasks S. length (job_imageData task)) + (\<Sum>w\<leftarrow>pool_workers S. pool_bytes w)"

text \<open>
  Payloads and requests to evaluate the service on: an image of \<open>n\<close> bytes, a request
  with a three-byte payload, and a session that has read this request and waits for
  the rate limit.
\<close>

definition image_of_size :: "nat \<Rightarrow> string" where
  "image_of_size n = replicate n (CHR 0xFF)"



section \<open>Properties of the adapter\<close>

subsection \<open>The loops of \<open>postProcessText\<close> compute the list functions\<close>

lemma length_takeWhile_lt:
  "\<not> (\<forall>x\<in>set xs. P x) \<Longrightarrow> length (takeWhile P xs) < length xs"
  by (induction xs) auto

lemma find_first_not_of_eq:
  "find_first_not_of s chars =
     (if \<forall>c\<in>set s. c \<in> set chars then None
      else Some (length (takeWhile (\<lambda>c. c \<in> set chars) s)))"
  by (induction s) auto

lemma erase_front:
  "erase s 0 (find_first_not_of s chars) = dropWhile (\<lambda>c. c \<in> set chars) s"
proof (cases "\<forall>c\<in>set s. c \<in> set chars")
  case True
  then have d: "dropWhile (\<lambda>c. c \<in> set chars) s = []"
    by simp
  show ?thesis
    unfolding d using True by (simp add: find_first_not_of_eq erase_def)
next
  case False
  then have "find_first_not_of s chars = Some (length (takeWhile (\<lambda>c. c \<in> set chars) s))"
    by (subst find_first_not_of_eq) (rule if_not_P)
  then show ?thesis
    by (simp add: erase_def dropWhile_eq_drop)
qed

lemma erase_back:
  "erase r (npos_plus_1 (find_last_not_of r chars)) None
     = rev (dropWhile (\<lambda>c. c \<in> set chars) (rev r))"
proof (cases "\<forall>c\<in>set r. c \<in> set chars")
  case True
  then have d: "dropWhile (\<lambda>c. c \<in> set chars) (rev r) = []"
    by simp
  show ?thesis
    unfolding d using True
    by (simp add: find_first_not_of_eq find_last_not_of_def erase_def npos_plus_1_def)
next
  case False
  let ?i = "length (takeWhile (\<lambda>c. c \<in> set chars) (rev r))"
  have "?i < length (rev r)"
    using False by (intro length_takeWhile_lt) simp
  then have i: "?i < length r" by simp
  have "\<not> (\<forall>c\<in>set (rev r). c \<in> set chars)"
    using False by simp
  then have "find_first_not_of (rev r) chars = Some ?i"
    by (subst find_first_not_of_eq) (rule if_not_P)
  then have "npos_plus_1 (find_last_not_of r chars) = length r - ?i"
    using i by (simp add: find_last_not_of_def npos_plus_1_def)
  moreover have "rev (dropWhile (\<lambda>c. c \<in> set chars) (rev r)) = take (length r - ?i) r"
    by (simp add: dropWhile_eq_drop rev_drop)
  ultimately show ?thesis
    by (simp add: erase_def)
qed

lemma strip_by_erase:
  "erase (erase text 0 (find_first_not_of text chars))
      (npos_plus_1 (find_last_not_of (erase text 0 (find_first_not_of text chars)) chars)) None
   = strip chars text"
  by (simp add: erase_front erase_back strip_def)

lemma trim_front_eq: "trim_front s = dropWhile (\<lambda>c. c \<in> set punctuation) s"
  by (induction s) auto

lemma trim_back_eq: "trim_back s = rev (dropWhile (\<lambda>c. c \<in> set punctuation) (rev s))"
proof (induction s rule: rev_induct)
  case Nil
  then show ?case by (subst trim_back.simps) simp
next
  case (snoc x xs)
  then show ?case
    by (subst trim_back.simps) simp
qed

lemma trim_eq: "trim_back (trim_front s) = strip punctuation s"
  by (simp add: trim_front_eq trim_back_eq strip_def)

lemma substitute_no_match:
  "find_at from xs = None \<Longrightarrow> substitute from to xs = xs"
  by (induction xs) (auto split: if_splits)

lemma substitute_first_match:
  "from \<noteq> [] \<Longrightarrow> find_at from xs = Some i \<Longrightarrow>
     substitute from to xs = take i xs @ to @ substitute from to (drop (i + length from) xs)"
proof (induction xs arbitrary: i)
  case Nil
  then show ?case by simp
next
  case (Cons c cs)
  show ?case
  proof (cases "take (length from) (c # cs) = from")
    case True
    with Cons.prems show ?thesis by simp
  next
    case False
    with Cons.prems obtain j where j: "find_at from cs = Some j" "i = Suc j"
      by auto
    with Cons.IH [OF Cons.prems(1) j(1)] False show ?thesis
      by simp
  qed
qed

lemma replace_loop_eq:
  "fst replacement \<noteq> [] \<Longrightarrow> pos \<le> length result \<Longrightarrow>
     replace_loop replacement result pos
       = Some (take pos result @ substitute (fst replacement) (snd replacement) (drop pos result))"
proof (induction "length result - pos" arbitrary: result pos rule: less_induct)
  case less
  let ?from = "fst replacement" and ?to = "snd replacement"
  show ?case
  proof (cases "find_at ?from (drop pos result)")
    case None
    then have "find_str result ?from pos = None"
      by (simp add: find_str_def)
    with None show ?thesis
      by (subst replace_loop.simps) (simp add: substitute_no_match)
  next
    case (Some i)
    let ?p = "pos + i"
    let ?result' = "replace result ?p (length ?from) ?to"
    have f: "find_str result ?from pos = Some ?p"
      using Some less.prems(2) by (simp add: find_str_def)
    have b: "i + length ?from \<le> length (drop pos result)"
      using Some by (rule find_at_bound)
    with less.prems(2) have b': "?p + length ?from \<le> length result"
      by simp
    have t: "take (?p + length ?to) ?result' = take ?p result @ ?to"
      using b' by (simp add: replace_def)
    have d: "drop (?p + length ?to) ?result' = drop (?p + length ?from) result"
      using b' by (simp add: replace_def)
    have len: "length ?result' = length result - length ?from + length ?to"
      using b' by (simp add: replace_def)
    have "length ?result' - (?p + length ?to) < length result - pos"
      using b' less.prems(1) len by (cases ?from) simp_all
    moreover have "?p + length ?to \<le> length ?result'"
      using b' len by simp
    ultimately have
      "replace_loop replacement ?result' (?p + length ?to)
         = Some (take (?p + length ?to) ?result'
                 @ substitute ?from ?to (drop (?p + length ?to) ?result'))"
      using less.hyps less.prems(1) by blast
    then have step: "replace_loop replacement ?result' (?p + length ?to)
         = Some (take ?p result @ ?to @ substitute ?from ?to (drop (?p + length ?from) result))"
      by (simp add: t d)
    have "substitute ?from ?to (drop pos result)
            = take i (drop pos result) @ ?to
              @ substitute ?from ?to (drop (i + length ?from) (drop pos result))"
      using less.prems(1) Some by (rule substitute_first_match)
    moreover have "take pos result @ take i (drop pos result) = take ?p result"
      by (simp add: take_add)
    moreover have "drop (i + length ?from) (drop pos result) = drop (?p + length ?from) result"
      by (simp add: ac_simps)
    ultimately have "take pos result @ substitute ?from ?to (drop pos result)
            = take ?p result @ ?to @ substitute ?from ?to (drop (?p + length ?from) result)"
      by (metis append.assoc)
    with step f show ?thesis
      by (subst replace_loop.simps) (simp only: option.case)
  qed
qed

lemma apply_replacements_eq:
  "\<forall>r\<in>set table. fst r \<noteq> [] \<Longrightarrow>
     apply_replacements table result = Some (substitute_all table result)"
proof (induction table arbitrary: result)
  case Nil
  then show ?case by (simp add: substitute_all_def)
next
  case (Cons replacement rest)
  have "replace_loop replacement result 0
          = Some (substitute (fst replacement) (snd replacement) result)"
    using Cons.prems replace_loop_eq [of replacement 0 result] by simp
  moreover have "apply_replacements rest (substitute (fst replacement) (snd replacement) result)
          = Some (substitute_all rest (substitute (fst replacement) (snd replacement) result))"
    using Cons.prems by (intro Cons.IH) simp
  ultimately show ?case
    by (simp add: substitute_all_def case_prod_unfold)
qed

lemma replacements_nonempty: "\<forall>r\<in>set replacements. fst r \<noteq> []"
  by (simp add: replacements_def)

lemma collapse_no_match:
  "find_at ''  '' xs = None \<Longrightarrow> collapse_spaces xs = xs"
  by (induction xs rule: collapse_spaces.induct) (auto split: if_splits)

lemma collapse_first_match:
  "find_at ''  '' xs = Some i \<Longrightarrow>
     collapse_spaces xs = take i xs @ collapse_spaces (CHR '' '' # drop (i + 2) xs)"
proof (induction xs arbitrary: i rule: collapse_spaces.induct)
  case (1 a b cs)
  show ?case
  proof (cases "a = CHR '' '' \<and> b = CHR '' ''")
    case True
    with "1.prems" show ?thesis by simp
  next
    case False
    with "1.prems" obtain j where j: "find_at ''  '' (b # cs) = Some j" "i = Suc j"
      by (auto split: if_splits)
    have c: "collapse_spaces (a # b # cs) = a # collapse_spaces (b # cs)"
      using False by auto
    have "collapse_spaces (b # cs)
            = take j (b # cs) @ collapse_spaces (CHR '' '' # drop (j + 2) (b # cs))"
      using False j(1) by (rule "1.IH"(2))
    then show ?thesis
      unfolding c j(2) by simp
  qed
qed simp_all

lemma collapse_loop_eq:
  "pos \<le> length result \<Longrightarrow>
     collapse_loop result pos = take pos result @ collapse_spaces (drop pos result)"
proof (induction "length result" arbitrary: result pos rule: less_induct)
  case less
  show ?case
  proof (cases "find_at ''  '' (drop pos result)")
    case None
    then have "find_str result ''  '' pos = None"
      by (simp add: find_str_def)
    with None show ?thesis
      by (subst collapse_loop.simps) (simp add: collapse_no_match)
  next
    case (Some i)
    let ?p = "pos + i"
    let ?result' = "replace result ?p 2 '' ''"
    have f: "find_str result ''  '' pos = Some ?p"
      using Some less.prems by (simp add: find_str_def)
    have "i + length ''  '' \<le> length (drop pos result)"
      using Some by (rule find_at_bound)
    with less.prems have b: "?p + 2 \<le> length result"
      by simp
    have t: "take ?p ?result' = take ?p result"
      using b by (simp add: replace_def)
    have d: "drop ?p ?result' = CHR '' '' # drop (?p + 2) result"
      using b by (simp add: replace_def)
    have "length ?result' < length result" "?p \<le> length ?result'"
      using b by (simp_all add: replace_def)
    then have "collapse_loop ?result' ?p
                 = take ?p ?result' @ collapse_spaces (drop ?p ?result')"
      using less.hyps by blast
    then have step: "collapse_loop ?result' ?p
                 = take ?p result @ collapse_spaces (CHR '' '' # drop (?p + 2) result)"
      by (simp only: t d)
    have "collapse_spaces (drop pos result)
            = take i (drop pos result)
              @ collapse_spaces (CHR '' '' # drop (i + 2) (drop pos result))"
      using Some by (rule collapse_first_match)
    moreover have "take pos result @ take i (drop pos result) = take ?p result"
      by (simp add: take_add)
    moreover have "drop (i + 2) (drop pos result) = drop (?p + 2) result"
      by (simp add: ac_simps)
    ultimately have "take pos result @ collapse_spaces (drop pos result)
            = take ?p result @ collapse_spaces (CHR '' '' # drop (?p + 2) result)"
      by (metis append.assoc)
    with step f show ?thesis
      by (subst collapse_loop.simps) (simp only: option.case)
  qed
qed

lemma strip_Nil: "strip chars [] = []"
  by (simp add: strip_def)

lemma substitute_all_Nil: "substitute_all table [] = []"
  by (induction table) (auto simp: substitute_all_def)

lemma postProcessText_eq:
  "postProcessText text
     = Some (collapse_spaces (strip punctuation (substitute_all replacements (strip whitespace text))))"
proof (cases "strip whitespace text = []")
  case True
  then show ?thesis
    by (simp add: postProcessText_def strip_by_erase Let_def substitute_all_Nil strip_Nil)
next
  case False
  then have "text \<noteq> []"
    by (auto simp: strip_Nil)
  with False show ?thesis
    by (simp add: postProcessText_def strip_by_erase Let_def
        apply_replacements_eq [OF replacements_nonempty] trim_eq collapse_loop_eq strip_Nil)
qed

lemma collapse_loop_part_003_eq:
  "pos \<le> length result \<Longrightarrow>
     collapse_loop_part_003 result pos = take pos result @ substitute ''  '' '' '' (drop pos result)"
proof (induction "length result" arbitrary: result pos rule: less_induct)
  case less
  show ?case
  proof (cases "find_at ''  '' (drop pos result)")
    case None
    then have "find_str result ''  '' pos = None"
      by (simp add: find_str_def)
    with None show ?thesis
      by (subst collapse_loop_part_003.simps) (simp add: substitute_no_match)
  next
    case (Some i)
    let ?p = "pos + i"
    let ?result' = "replace result ?p 2 '' ''"
    have f: "find_str result ''  '' pos = Some ?p"
      using Some less.prems by (simp add: find_str_def)
    have "i + length ''  '' \<le> length (drop pos result)"
      using Some by (rule find_at_bound)
    with less.prems have b: "?p + 2 \<le> length result"
      by simp
    have t: "take (?p + 1) ?result' = take ?p result @ '' ''"
      using b by (simp add: replace_def)
    have d: "drop (?p + 1) ?result' = drop (?p + 2) result"
      using b by (simp add: replace_def)
    have "length ?result' < length result" "?p + 1 \<le> length ?result'"
      using b by (simp_all add: replace_def)
    then have "collapse_loop_part_003 ?result' (?p + 1)
                 = take (?p + 1) ?result' @ substitute ''  '' '' '' (drop (?p + 1) ?result')"
      using less.hyps by blast
    then have step: "collapse_loop_part_003 ?result' (?p + 1)
                 = take ?p result @ '' '' @ substitute ''  '' '' '' (drop (?p + 2) result)"
      by (simp only: t d append.assoc)
    have "substitute ''  '' '' '' (drop pos result)
            = take i (drop pos result) @ '' ''
              @ substitute ''  '' '' '' (drop (i + length ''  '') (drop pos result))"
      using Some by (intro substitute_first_match) simp_all
    moreover have "take pos result @ take i (drop pos result) = take ?p result"
      by (simp add: take_add)
    moreover have "drop (i + length ''  '') (drop pos result) = drop (?p + 2) result"
      by (simp add: ac_simps)
    ultimately have "take pos result @ substitute ''  '' '' '' (drop pos result)
            = take ?p result @ '' '' @ substitute ''  '' '' '' (drop (?p + 2) result)"
      by (metis append.assoc)
    with step f show ?thesis
      by (subst collapse_loop_part_003.simps) (simp only: option.case)
  qed
qed

lemma strip_by_substr:
  assumes "\<not> (\<forall>c\<in>set text. c \<in> set chars)"
  shows "\<exists>start fin. find_first_not_of text chars = Some start
           \<and> find_last_not_of text chars = Some fin
           \<and> start \<le> fin
           \<and> substr text start (fin - start + 1) = strip chars text"
proof -
  let ?P = "\<lambda>c. c \<in> set chars"
  let ?A = "takeWhile ?P text" and ?rest = "dropWhile ?P text"
  let ?T = "takeWhile ?P (rev ?rest)" and ?D = "dropWhile ?P (rev ?rest)"
  have split: "text = ?A @ ?rest"
    by simp
  have rest: "?rest \<noteq> []"
    using assms by simp
  then have "\<not> ?P (hd ?rest)"
    by (rule hd_dropWhile)
  moreover have "hd ?rest \<in> set (rev ?rest)"
    using rest by simp
  ultimately have D: "?D \<noteq> []"
    by (metis (mono_tags, lifting) dropWhile_eq_Nil_conv)
  then have hdD: "\<not> ?P (hd ?D)"
    by (rule hd_dropWhile)
  have rest_eq: "?rest = rev ?D @ rev ?T"
    by (metis rev_append rev_rev_ident takeWhile_dropWhile_id)
  have strip: "strip chars text = rev ?D"
    by (simp add: strip_def)
  have "rev text = rev ?rest @ rev ?A"
    by (subst split) (simp only: rev_append)
  then have rev_text: "rev text = ?T @ (?D @ rev ?A)"
    by simp
  have "takeWhile ?P (?D @ rev ?A) = []"
    using D hdD by (simp add: takeWhile_eq_Nil_iff)
  moreover have "takeWhile ?P (?T @ (?D @ rev ?A)) = ?T @ takeWhile ?P (?D @ rev ?A)"
    by (rule takeWhile_append2) (auto dest: set_takeWhileD)
  ultimately have tw: "takeWhile ?P (rev text) = ?T"
    by (simp only: rev_text append_Nil2)
  have first: "find_first_not_of text chars = Some (length ?A)"
    using assms by (subst find_first_not_of_eq) (rule if_not_P)
  have "\<not> (\<forall>c\<in>set (rev text). ?P c)"
    using assms by simp
  then have "find_first_not_of (rev text) chars = Some (length (takeWhile ?P (rev text)))"
    by (subst find_first_not_of_eq) (rule if_not_P)
  then have lst: "find_last_not_of text chars = Some (length text - 1 - length ?T)"
    by (simp add: find_last_not_of_def tw)
  have len: "length text = length ?A + (length ?D + length ?T)"
    by (subst split, subst rest_eq) (simp only: length_append length_rev)
  have Dpos: "0 < length ?D"
    using D by simp
  have le: "length ?A \<le> length text - 1 - length ?T"
    using len Dpos by linarith
  have cnt: "length text - 1 - length ?T - length ?A + 1 = length ?D"
    using len Dpos by linarith
  have "drop (length ?A) text = ?rest"
    by (simp add: dropWhile_eq_drop [symmetric])
  then have "substr text (length ?A) (length ?D) = take (length ?D) (rev ?D @ rev ?T)"
    using rest_eq by (simp add: substr_def)
  then have sub: "substr text (length ?A) (length ?D) = rev ?D"
    by simp
  show ?thesis
  proof (intro exI conjI)
    show "find_first_not_of text chars = Some (length ?A)"
      by (rule first)
    show "find_last_not_of text chars = Some (length text - 1 - length ?T)"
      by (rule lst)
    show "length ?A \<le> length text - 1 - length ?T"
      by (rule le)
    show "substr text (length ?A) (length text - 1 - length ?T - length ?A + 1)
            = strip chars text"
      unfolding cnt strip by (rule sub)
  qed
qed

lemma strip_empty:
  assumes "\<forall>c\<in>set text. c \<in> set chars"
  shows "strip chars text = []"
proof -
  have "dropWhile (\<lambda>c. c \<in> set chars) text = []"
    using assms by simp
  then show ?thesis
    by (simp only: strip_def rev.simps dropWhile.simps)
qed

lemma postProcessText_part_003_eq:
  "postProcessText_part_003 text = substitute ''  '' '' '' (strip whitespace text)"
proof (cases "\<forall>c\<in>set text. c \<in> set whitespace")
  case True
  then have "find_first_not_of text whitespace = None"
    by (simp add: find_first_not_of_eq)
  with True show ?thesis
    by (simp add: postProcessText_part_003_def strip_empty)
next
  case False
  then obtain start fin where
    "find_first_not_of text whitespace = Some start"
    "find_last_not_of text whitespace = Some fin"
    "substr text start (fin - start + 1) = strip whitespace text"
    using strip_by_substr by blast
  moreover have "text \<noteq> []"
    using False by auto
  ultimately show ?thesis
    by (simp add: postProcessText_part_003_def collapse_loop_part_003_eq)
qed

lemma has_three_spaces_Cons: "has_three_spaces xs \<Longrightarrow> has_three_spaces (x # xs)"
  by (cases xs rule: has_three_spaces.cases) auto

lemma has_three_spaces_append_left: "has_three_spaces xs \<Longrightarrow> has_three_spaces (ys @ xs)"
  by (induction ys) (auto intro: has_three_spaces_Cons)

lemma has_three_spaces_append_right: "has_three_spaces xs \<Longrightarrow> has_three_spaces (xs @ zs)"
  by (induction xs rule: has_three_spaces.induct) auto

lemma strip_infix: "\<exists>a c. text = a @ strip chars text @ c"
proof -
  let ?P = "\<lambda>c. c \<in> set chars"
  let ?rest = "dropWhile ?P text"
  have "?rest = rev (dropWhile ?P (rev ?rest)) @ rev (takeWhile ?P (rev ?rest))"
    by (metis rev_append rev_rev_ident takeWhile_dropWhile_id)
  then have "?rest = strip chars text @ rev (takeWhile ?P (rev ?rest))"
    by (simp only: strip_def)
  moreover have "text = takeWhile ?P text @ ?rest"
    by simp
  ultimately have "text = takeWhile ?P text @ strip chars text @ rev (takeWhile ?P (rev ?rest))"
    by simp
  then show ?thesis by blast
qed

lemma has_three_spaces_strip: "has_three_spaces (strip chars text) \<Longrightarrow> has_three_spaces text"
proof -
  assume h: "has_three_spaces (strip chars text)"
  obtain a c where t: "text = a @ strip chars text @ c"
    using strip_infix by blast
  have "has_three_spaces (a @ strip chars text @ c)"
    using h by (intro has_three_spaces_append_left has_three_spaces_append_right)
  with t show ?thesis by simp
qed

lemma collapse_space_single:
  "(case cs of [] \<Rightarrow> True | d # _ \<Rightarrow> d \<noteq> CHR '' '') \<Longrightarrow>
     collapse_spaces (CHR '' '' # cs) = CHR '' '' # collapse_spaces cs"
  by (cases cs) auto

lemma substitute_pairs_eq_collapse:
  "\<not> has_three_spaces xs \<Longrightarrow> substitute ''  '' '' '' xs = collapse_spaces xs"
proof (induction xs rule: length_induct)
  case (1 xs)
  show ?case
  proof (cases xs)
    case Nil
    then show ?thesis by simp
  next
    case (Cons c cs)
    show ?thesis
    proof (cases "take 2 (c # cs) = ''  ''")
      case True
      then obtain rest where cs: "c = CHR '' ''" "cs = CHR '' '' # rest"
        by (cases cs) auto
      have nr: "\<not> has_three_spaces rest"
        using "1.prems" Cons cs by (cases rest rule: has_three_spaces.cases) auto
      have hd_rest: "case rest of [] \<Rightarrow> True | d # _ \<Rightarrow> d \<noteq> CHR '' ''"
        using "1.prems" Cons cs by (cases rest) auto
      have "substitute ''  '' '' '' rest = collapse_spaces rest"
        using "1.IH" nr Cons cs by simp
      moreover have "collapse_spaces (CHR '' '' # CHR '' '' # rest) = CHR '' '' # collapse_spaces rest"
        using collapse_space_single [OF hd_rest] by simp
      ultimately show ?thesis
        using Cons cs by simp
    next
      case False
      have nr: "\<not> has_three_spaces cs"
        using "1.prems" Cons by (auto dest: has_three_spaces_Cons)
      have ih: "substitute ''  '' '' '' cs = collapse_spaces cs"
        using "1.IH" nr Cons by simp
      have "collapse_spaces (c # cs) = c # collapse_spaces cs"
        using False by (cases cs) auto
      moreover have "substitute ''  '' '' '' (c # cs) = c # substitute ''  '' '' '' cs"
        using False by auto
      ultimately show ?thesis
        using ih Cons by simp
    qed
  qed
qed

lemma postProcessText_part_003_collapse:
  assumes "\<not> has_three_spaces text"
  shows "postProcessText_part_003 text = collapse_spaces (strip whitespace text)"
proof -
  have "\<not> has_three_spaces (strip whitespace text)"
    using assms has_three_spaces_strip by blast
  then have "substitute ''  '' '' '' (strip whitespace text)
               = collapse_spaces (strip whitespace text)"
    by (rule substitute_pairs_eq_collapse)
  then show ?thesis
    by (simp only: postProcessText_part_003_eq)
qed

text \<open>
  C5, as the code has it. \<open>postProcessText\<close> of src/OCRProcessor.cpp always returns, and
  its result is: strip leading and trailing whitespace; apply the thirteen
  substitutions of \<open>replacements\<close> in order (among them \<open>0\<close> to \<open>o\<close>, \<open>1\<close> to \<open>l\<close>
  and \<open>5\<close> to \<open>s\<close>); trim the punctuation characters from both ends; collapse every run
  of spaces to one space. The variant that handles whitespace only has neither
  substitutions nor punctuation trimming: on a text without three spaces in a row it
  strips whitespace and collapses the runs of spaces.
\<close>

theorem postProcessText_is:
  "postProcessText text
     = Some (collapse_spaces (strip punctuation
               (substitute_all replacements (strip whitespace text))))
   \<and> (\<not> has_three_spaces text \<longrightarrow>
        postProcessText_part_003 text = collapse_spaces (strip whitespace text))"
  using postProcessText_eq postProcessText_part_003_collapse by blast

theorem postProcessText_is_witness:
  "\<not> has_three_spaces '' a  b10. '' \<and> postProcessText_part_003 '' a  b10. '' = ''a b10.''
   \<and> postProcessText '' a  b10. '' = Some ''a blo''"
  using postProcessText_is [of "'' a  b10. ''"]
  by (simp add: text_defs)

theorem postProcessText_counterexample:
  "postProcessText ''10'' = Some ''lo'' \<and> spec_post_process ''10'' = ''10''
   \<and> postProcessText_part_003 ''.a'' = ''.a'' \<and> spec_post_process ''.a'' = ''a''"
  by (simp add: postProcessText_eq postProcessText_part_003_eq spec_post_process_def text_defs)

text \<open>
  C9. The post-processing is not idempotent: one application can leave a run of two
  spaces, or a leading space. The whitespace-only variant turns three spaces into two,
  and a second application turns them into one. The variant of src/OCRProcessor.cpp
  trims punctuation after it has stripped whitespace, so the space behind a leading dot
  stays, and a second application removes it.
\<close>

theorem postProcessText_not_idempotent:
  "postProcessText_part_003 ''a   b'' = ''a  b'' \<and> postProcessText_part_003 ''a  b'' = ''a b''
   \<and> postProcessText ''. a'' = Some '' a'' \<and> postProcessText '' a'' = Some ''a''"
  by (simp add: postProcessText_eq postProcessText_part_003_eq text_defs)

subsection \<open>The result of a task\<close>

lemma processImage_returns: "\<exists>extractedText. processImage p bytes file = Some extractedText"
  by (simp add: processImage_def postProcessText_eq split: option.splits sum.splits)

text \<open>
  C4, as the code has it. A task whose payload cannot be decoded is answered with
  \<open>success = False\<close>, an empty text and the \<open>error_message\<close>
  "OCR failed to extract text": the same result as for a payload that decodes and in which
  the recognizer finds no text. \<open>processImage\<close> returns the empty string in both cases, and
  the message is chosen from the text alone.
\<close>

theorem undecodable_image_result:
  "(m_initialized p \<and> imageData task \<noteq> [] \<and> pixReadMem p (imageData task) = None \<longrightarrow>
      ocr_task p task
        = Some \<lparr>result_image_id = imageId task, extracted_text = [], success = False,
                error_message = ''OCR failed to extract text''\<rparr>)
   \<and> (m_initialized q \<and> imageData task \<noteq> []
      \<and> cleanImage q (imageData task) = Some cleanedImage
      \<and> GetUTF8Text q cleanedImage = Inr (Some []) \<longrightarrow>
      ocr_task q task
        = Some \<lparr>result_image_id = imageId task, extracted_text = [], success = False,
                error_message = ''OCR failed to extract text''\<rparr>)"
  by (simp add: ocr_task_def processImage_def cleanImage_def task_result_def postProcessText_def)

theorem undecodable_image_result_witness:
  "m_initialized undecodable
   \<and> pixReadMem undecodable ''random bytes'' = None
   \<and> ocr_task undecodable
        \<lparr>imageId = ''a'', task_filename = ''a.png'', imageData = ''random bytes'', processor = 0\<rparr>
      = Some \<lparr>result_image_id = ''a'', extracted_text = [], success = False,
              error_message = ''OCR failed to extract text''\<rparr>
   \<and> m_initialized blank_page
   \<and> cleanImage blank_page ''random bytes'' = Some ()
   \<and> GetUTF8Text blank_page () = Inr (Some [])
   \<and> ocr_task blank_page
        \<lparr>imageId = ''a'', task_filename = ''a.png'', imageData = ''random bytes'', processor = 0\<rparr>
      = Some \<lparr>result_image_id = ''a'', extracted_text = [], success = False,
              error_message = ''OCR failed to extract text''\<rparr>"
  using undecodable_image_result
    [where p = undecodable and q = blank_page and cleanedImage = "()"
       and task = "\<lparr>imageId = ''a'', task_filename = ''a.png'', imageData = ''random bytes'',
                     processor = 0\<rparr>"]
  by (simp add: undecodable_def blank_page_def cleanImage_def)

theorem decode_failed_counterexample:
  "map_option error_message
     (ocr_task undecodable
        \<lparr>imageId = ''a'', task_filename = ''a.png'', imageData = ''random bytes'', processor = 0\<rparr>)
     = Some ''OCR failed to extract text''
   \<and> map_option error_message
       (ocr_task blank_page
          \<lparr>imageId = ''a'', task_filename = ''a.png'', imageData = ''random bytes'',
            processor = 0\<rparr>)
       = Some ''OCR failed to extract text''"
  by (simp add: ocr_task_def processImage_def cleanImage_def task_result_def postProcessText_def
      undecodable_def blank_page_def)

section \<open>Properties of \<open>main\<close>\<close>

text \<open>
  C6. \<open>--port\<close> keeps the address that is already set, but \<open>--address\<close> sets the port
  back to 50051, so the bound port depends on the order of the two flags: with
  \<open>--port\<close> first, the port given on the command line is lost.
\<close>

theorem port_lost_before_address:
  "main [''--port'', ''8080'', ''--address'', ''127.0.0.1''] = Listen ''127.0.0.1:50051'' 4
   \<and> main [''--address'', ''127.0.0.1'', ''--port'', ''8080''] = Listen ''127.0.0.1:8080'' 4"
  by (simp add: main_def substr_def)

lemma main_defaults: "main [] = Listen ''0.0.0.0:50051'' 4"
  by (simp add: main_def)

lemma main_threads:
  "main [''--port'', ''8080'', ''--threads'', '' 12x''] = Listen ''0.0.0.0:8080'' 12"
  "main [''--threads'', ''x'', ''--port'', ''8080''] = Terminate invalid_argument"
  by (simp_all add: main_def substr_def stoul_def isspace_def isdigit_def digits_value_def Let_def)

section \<open>Properties of the streaming service\<close>

subsection \<open>The selected processor exists\<close>

lemma scast_ucast_small:
  fixes r :: "64 word"
  assumes "unat r < 2 ^ 31"
  shows "(scast (ucast r :: 32 word) :: 64 word) = r"
proof -
  have "int (unat r) < int (2 ^ 31)"
    using assms by (rule iffD2 [OF of_nat_less_iff])
  then have u: "uint r < 2 ^ 31"
    by (simp only: uint_nat of_nat_power of_nat_numeral)
  have "sint (ucast r :: 32 word) = signed_take_bit 31 (uint r)"
    by (simp add: signed_ucast_eq)
  also have "\<dots> = uint r"
  proof (rule signed_take_bit_int_eq_self)
    have "- (2 ^ 31) \<le> (0::int)" by simp
    also have "0 \<le> uint r" by simp
    finally show "- (2 ^ 31) \<le> uint r" .
    show "uint r < 2 ^ 31" by (rule u)
  qed
  finally have "sint (ucast r :: 32 word) = uint r" .
  then show ?thesis
    by (simp add: scast_eq)
qed

lemma processorIndex_unat:
  fixes sz :: "64 word"
  assumes "0 < unat sz" "unat sz \<le> 2 ^ 31"
  shows "unat (scast (processorIndex m sz) :: 64 word) = unat (scast m :: 64 word) mod unat sz"
proof -
  let ?r = "(scast m :: 64 word) mod sz"
  have "unat ?r < unat sz"
    using assms(1) by (simp add: unat_mod)
  then have "unat ?r < 2 ^ 31"
    using assms(2) by linarith
  then have "(scast (ucast ?r :: 32 word) :: 64 word) = ?r"
    by (rule scast_ucast_small)
  then show ?thesis
    by (simp add: processorIndex_def unat_mod)
qed

text \<open>
  C10. After any number \<open>k\<close> of earlier dispatches the counter holds \<open>k\<close> reduced to 32
  bits, negative once \<open>k\<close> has passed \<open>2^31\<close>, and the selected index still addresses
  an element of the processor vector. The vector is not empty, because the constructor
  throws when no processor initialises, and it holds at most \<open>2^31\<close> processors, so
  that an index fits the \<open>int\<close> it is stored in.
\<close>

theorem processor_index_in_bounds:
  assumes "m_processors \<noteq> []" "length m_processors \<le> 2 ^ 31"
  shows "\<exists>p. processor_at m_processors
           (processorIndex (word_of_nat k) (word_of_nat (length m_processors))) = Some p
         \<and> p \<in> set m_processors"
proof -
  let ?n = "length m_processors"
  have n: "unat (word_of_nat ?n :: 64 word) = ?n"
    using assms(2) by (simp add: unat_of_nat)
  have "0 < ?n" using assms(1) by simp
  with n assms(2) have
    "unat (scast (processorIndex (word_of_nat k) (word_of_nat ?n)) :: 64 word)
       = unat (scast (word_of_nat k :: 32 word) :: 64 word) mod ?n"
    by (simp add: processorIndex_unat)
  moreover have "unat (scast (word_of_nat k :: 32 word) :: 64 word) mod ?n < ?n"
    using \<open>0 < ?n\<close> by simp
  ultimately show ?thesis
    by (simp add: processor_at_def Let_def)
qed

theorem processor_index_in_bounds_witness:
  "[10, 20, 30 :: nat] \<noteq> [] \<and> length [10, 20, 30 :: nat] \<le> 2 ^ 31 \<and>
   (\<exists>p. processor_at [10, 20, 30 :: nat]
          (processorIndex (word_of_nat (2 ^ 31 + 1)) (word_of_nat (length [10, 20, 30 :: nat])))
          = Some p
        \<and> p \<in> set [10, 20, 30 :: nat])"
  using processor_index_in_bounds [of "[10, 20, 30 :: nat]" "2 ^ 31 + 1"] by simp

subsection \<open>Arithmetic of the counters\<close>

lemma sum_list_update_add:
  fixes f :: "'a \<Rightarrow> 'b::comm_monoid_add"
  shows "i < length xs \<Longrightarrow>
    sum_list (map f (xs[i := v])) + f (xs ! i) = sum_list (map f xs) + f v"
proof (induction xs arbitrary: i)
  case Nil
  then show ?case by simp
next
  case (Cons x xs)
  show ?case
  proof (cases i)
    case 0
    then show ?thesis by (simp add: ac_simps)
  next
    case (Suc j)
    with Cons.prems have "j < length xs" by simp
    then have "sum_list (map f (xs[j := v])) + f (xs ! j) = sum_list (map f xs) + f v"
      by (rule Cons.IH)
    then have "f x + (sum_list (map f (xs[j := v])) + f (xs ! j)) = f x + (sum_list (map f xs) + f v)"
      by simp
    with Suc show ?thesis by (simp add: ac_simps)
  qed
qed

lemma unat_MAX_MEMORY_USAGE: "unat MAX_MEMORY_USAGE = 524288000"
  by (simp add: MAX_MEMORY_USAGE_def)

lemma unat_size_of: "length d < 2 ^ 63 \<Longrightarrow> unat (size_of d) = length d"
  by (simp add: size_of_def unat_of_nat)

lemma unat_add_size_of:
  assumes "unat g \<le> 524288000" "length d < 2 ^ 63"
  shows "unat (g + size_of d) = unat g + length d"
proof -
  have "unat g + unat (size_of d) < 2 ^ 64"
    using assms by (simp add: unat_size_of)
  then have "unat (g + size_of d) = unat g + unat (size_of d)"
    by (simp add: unat_add_lem [THEN iffD1])
  then show ?thesis
    using assms(2) by (simp add: unat_size_of)
qed

lemma memory_check:
  assumes "unat g \<le> 524288000" "length d < 2 ^ 63"
  shows "(g + size_of d > MAX_MEMORY_USAGE) \<longleftrightarrow> (unat g + length d > 524288000)"
  using unat_add_size_of [OF assms]
  by (simp add: word_less_nat_alt unat_MAX_MEMORY_USAGE)

lemma unat_sub_size_of:
  assumes "length d \<le> unat g" "length d < 2 ^ 63"
  shows "unat (g - size_of d) = unat g - length d"
proof -
  have "size_of d \<le> g"
    using assms by (simp add: word_le_nat_alt unat_size_of)
  then have "unat (g - size_of d) = unat g - unat (size_of d)"
    by (rule unat_sub)
  then show ?thesis
    using assms(2) by (simp add: unat_size_of)
qed

lemma rate_limit_check:
  "k \<le> 4 \<Longrightarrow> (MAX_CONCURRENT_TASKS \<le>s (word_of_nat k :: 32 word)) \<longleftrightarrow> 4 \<le> k"
proof -
  assume "k \<le> 4"
  then consider "k = 0" | "k = 1" | "k = 2" | "k = 3" | "k = 4"
    by linarith
  then show ?thesis
    by cases (simp_all add: MAX_CONCURRENT_TASKS_def word_sle_eq)
qed

lemma pool_drained:
  assumes "k < 2 ^ 32"
  shows "(word_of_nat k :: 32 word) = 0 \<longleftrightarrow> k = 0"
proof
  have u: "unat (word_of_nat k :: 32 word) = k"
    using assms by (simp add: unat_of_nat)
  assume "(word_of_nat k :: 32 word) = 0"
  then have "unat (word_of_nat k :: 32 word) = 0"
    by simp
  with u show "k = 0" by simp
next
  assume "k = 0"
  then show "(word_of_nat k :: 32 word) = 0" by simp
qed

lemmas ev_defs = rd_read_def rd_dispatch_def rd_lock_def rd_write_def rd_waitAll_def
  wk_pop_def wk_run_def wk_lock_def wk_write_def wk_finish_def

lemma sum_list_replicate_zero [simp]:
  "sum_list (replicate n (0::'a::monoid_add)) = 0"
  by (induction n) simp_all

lemma inv_init:
  "valid c0 requests nproc nthreads \<Longrightarrow>
     inv c0 requests nproc nthreads (ProcessImages c0 nproc nthreads requests)"
  by (simp add: inv_def valid_def ProcessImages_def inv_counter_def inv_active_def inv_pool_def
      inv_mutex_def inv_ids_def inv_shape_def inv_done_def in_flight_bytes_def in_flight_def
      unfinished_def pending_ids_def writers_def list_all_iff)

subsection \<open>The shape of each step\<close>

lemma rd_readE:
  assumes "rd_read s = Some s'"
  obtains
    (eof) "reader s = R_Read" "stream_in s = []" "s' = s\<lparr>reader := R_WaitAll\<rparr>"
  | (reject) request rest where "reader s = R_Read" "stream_in s = request # rest"
      "g_activeImageSize s + size_of (image_data request) > MAX_MEMORY_USAGE"
      "s' = s\<lparr>stream_in := rest, reader := R_Lock (memory_limit_result (image_id request))\<rparr>"
  | (admit) request rest where "reader s = R_Read" "stream_in s = request # rest"
      "\<not> g_activeImageSize s + size_of (image_data request) > MAX_MEMORY_USAGE"
      "s' = s\<lparr>stream_in := rest, reader := R_RateLimit request\<rparr>"
  using assms
  by (auto simp: rd_read_def Let_def split: reader_pc.splits list.splits if_splits)

lemma rd_dispatchE:
  assumes "rd_dispatch s = Some s'"
  obtains
    (empty) request where "reader s = R_RateLimit request"
      "\<not> MAX_CONCURRENT_TASKS \<le>s activeTasks s" "image_data request = []"
      "s' = s\<lparr>reader := R_Lock (empty_data_result (image_id request))\<rparr>"
  | (enqueue) request where "reader s = R_RateLimit request"
      "\<not> MAX_CONCURRENT_TASKS \<le>s activeTasks s" "image_data request \<noteq> []"
      "s' = s\<lparr>m_nextProcessorIndex := m_nextProcessorIndex s + 1,
               activeTasks := activeTasks s + 1,
               g_activeImageSize := g_activeImageSize s + size_of (image_data request),
               m_tasks := m_tasks s @
                 [\<lparr>imageId = image_id request, task_filename = filename request,
                   imageData = image_data request,
                   processor = processorIndex (m_nextProcessorIndex s) (m_processors_size s)\<rparr>],
               m_activeTasks := m_activeTasks s + 1,
               reader := R_Read\<rparr>"
  using assms
  by (auto simp: rd_dispatch_def enqueue_def Let_def split: reader_pc.splits if_splits)

lemma rd_lockE:
  assumes "rd_lock s = Some s'"
  obtains result where "reader s = R_Lock result" "m_streamMutex s = None"
    "s' = s\<lparr>m_streamMutex := Some Reader, reader := R_Write result\<rparr>"
  using assms by (auto simp: rd_lock_def split: reader_pc.splits if_splits)

lemma rd_writeE:
  assumes "rd_write ok s = Some s'"
  obtains result where "reader s = R_Write result"
    "s' = s\<lparr>stream_out := stream_out s @ [(result, ok)], m_streamMutex := None, reader := R_Read\<rparr>"
  using assms by (auto simp: rd_write_def split: reader_pc.splits)

lemma rd_waitAllE:
  assumes "rd_waitAll s = Some s'"
  obtains "reader s = R_WaitAll" "m_tasks s = []" "m_activeTasks s = 0"
    "s' = s\<lparr>reader := R_Return\<rparr>"
  using assms by (auto simp: rd_waitAll_def split: reader_pc.splits if_splits)

lemma wk_popE:
  assumes "wk_pop i s = Some s'"
  obtains task rest where "i < length (m_workers s)" "m_workers s ! i = W_Idle"
    "m_tasks s = task # rest"
    "s' = s\<lparr>m_tasks := rest, m_workers := (m_workers s)[i := W_Task task]\<rparr>"
  using assms by (auto simp: wk_pop_def split: worker_pc.splits list.splits if_splits)

lemma wk_runE:
  assumes "wk_run i extractedText s = Some s'"
  obtains task where "i < length (m_workers s)" "m_workers s ! i = W_Task task"
    "s' = s\<lparr>g_activeImageSize := g_activeImageSize s - size_of (imageData task),
             activeTasks := activeTasks s - 1,
             m_workers := (m_workers s)[i := W_Lock (task_result (imageId task) extractedText)]\<rparr>"
  using assms by (auto simp: wk_run_def split: worker_pc.splits if_splits)

lemma wk_lockE:
  assumes "wk_lock i s = Some s'"
  obtains result where "i < length (m_workers s)" "m_workers s ! i = W_Lock result"
    "m_streamMutex s = None"
    "s' = s\<lparr>m_streamMutex := Some (Worker i), m_workers := (m_workers s)[i := W_Write result]\<rparr>"
  using assms by (auto simp: wk_lock_def split: worker_pc.splits if_splits)

lemma wk_writeE:
  assumes "wk_write i ok s = Some s'"
  obtains result where "i < length (m_workers s)" "m_workers s ! i = W_Write result"
    "s' = s\<lparr>stream_out := stream_out s @ [(result, ok)], m_streamMutex := None,
             m_workers := (m_workers s)[i := W_Finish]\<rparr>"
  using assms by (auto simp: wk_write_def split: worker_pc.splits if_splits)

lemma wk_finishE:
  assumes "wk_finish i s = Some s'"
  obtains "i < length (m_workers s)" "m_workers s ! i = W_Finish"
    "s' = s\<lparr>m_activeTasks := m_activeTasks s - 1, m_workers := (m_workers s)[i := W_Idle]\<rparr>"
  using assms by (auto simp: wk_finish_def split: worker_pc.splits if_splits)

lemma worker_sums:
  assumes "i < length ws" "ws ! i = old"
  shows "sum_list (map worker_bytes (ws[i := new])) + worker_bytes old
           = sum_list (map worker_bytes ws) + worker_bytes new"
    and "sum_list (map worker_tasks (ws[i := new])) + worker_tasks old
           = sum_list (map worker_tasks ws) + worker_tasks new"
    and "sum_list (map worker_busy (ws[i := new])) + worker_busy old
           = sum_list (map worker_busy ws) + worker_busy new"
    and "sum_list (map worker_writing (ws[i := new])) + worker_writing old
           = sum_list (map worker_writing ws) + worker_writing new"
    and "sum_list (map worker_ids (ws[i := new])) + worker_ids old
           = sum_list (map worker_ids ws) + worker_ids new"
  using assms sum_list_update_add [of i ws _ new] by auto

subsection \<open>The mutex\<close>

lemma inv_mutex_step:
  assumes "inv_mutex s" "step e s = Some s'"
  shows "inv_mutex s'"
proof (cases e)
  case Rd_Read
  with assms(2) have "rd_read s = Some s'" by simp
  then show ?thesis
    using assms(1) by (cases rule: rd_readE) (auto simp: inv_mutex_def writers_def)
next
  case Rd_Dispatch
  with assms(2) have "rd_dispatch s = Some s'" by simp
  then show ?thesis
    using assms(1) by (cases rule: rd_dispatchE) (auto simp: inv_mutex_def writers_def)
next
  case Rd_Lock
  with assms(2) have "rd_lock s = Some s'" by simp
  then show ?thesis
    using assms(1) by (cases rule: rd_lockE) (auto simp: inv_mutex_def writers_def)
next
  case (Rd_Write ok)
  with assms(2) have "rd_write ok s = Some s'" by simp
  then show ?thesis
    using assms(1)
    by (cases rule: rd_writeE) (auto simp: inv_mutex_def writers_def split: option.splits)
next
  case Rd_WaitAll
  with assms(2) have "rd_waitAll s = Some s'" by simp
  then show ?thesis
    using assms(1) by (cases rule: rd_waitAllE) (auto simp: inv_mutex_def writers_def)
next
  case (Wk_Pop i)
  with assms(2) have "wk_pop i s = Some s'" by simp
  then show ?thesis
  proof (cases rule: wk_popE)
    case (1 task rest)
    with assms(1) worker_sums(4) [OF 1(1) 1(2), of "W_Task task"] show ?thesis
      by (simp add: inv_mutex_def writers_def)
  qed
next
  case (Wk_Run i t)
  with assms(2) have "wk_run i t s = Some s'" by simp
  then show ?thesis
  proof (cases rule: wk_runE)
    case (1 task)
    with assms(1) worker_sums(4) [OF 1(1) 1(2), of "W_Lock (task_result (imageId task) t)"]
    show ?thesis
      by (simp add: inv_mutex_def writers_def)
  qed
next
  case (Wk_Lock i)
  with assms(2) have "wk_lock i s = Some s'" by simp
  then show ?thesis
  proof (cases rule: wk_lockE)
    case (1 result)
    with assms(1) worker_sums(4) [OF 1(1) 1(2), of "W_Write result"] show ?thesis
      by (simp add: inv_mutex_def writers_def)
  qed
next
  case (Wk_Write i ok)
  with assms(2) have "wk_write i ok s = Some s'" by simp
  then show ?thesis
  proof (cases rule: wk_writeE)
    case (1 result)
    with assms(1) worker_sums(4) [OF 1(1) 1(2), of W_Finish] show ?thesis
      by (cases "m_streamMutex s")
         (simp_all add: inv_mutex_def writers_def del: sum_list_eq_0_iff add_is_0)
  qed
next
  case (Wk_Finish i)
  with assms(2) have "wk_finish i s = Some s'" by simp
  then show ?thesis
  proof (cases rule: wk_finishE)
    case 1
    with assms(1) worker_sums(4) [OF 1(1) 1(2), of W_Idle] show ?thesis
      by (simp add: inv_mutex_def writers_def)
  qed
qed

subsection \<open>Image ids\<close>

lemma inv_ids_step:
  assumes "inv_ids requests s" "step e s = Some s'"
  shows "inv_ids requests s'"
proof (cases e)
  case Rd_Read
  with assms(2) have "rd_read s = Some s'" by simp
  then show ?thesis
    using assms(1)
    by (cases rule: rd_readE) (auto simp: inv_ids_def pending_ids_def memory_limit_result_def)
next
  case Rd_Dispatch
  with assms(2) have "rd_dispatch s = Some s'" by simp
  then show ?thesis
    using assms(1)
    by (cases rule: rd_dispatchE) (auto simp: inv_ids_def pending_ids_def empty_data_result_def)
next
  case Rd_Lock
  with assms(2) have "rd_lock s = Some s'" by simp
  then show ?thesis
    using assms(1) by (cases rule: rd_lockE) (auto simp: inv_ids_def pending_ids_def)
next
  case (Rd_Write ok)
  with assms(2) have "rd_write ok s = Some s'" by simp
  then show ?thesis
    using assms(1) by (cases rule: rd_writeE) (auto simp: inv_ids_def pending_ids_def)
next
  case Rd_WaitAll
  with assms(2) have "rd_waitAll s = Some s'" by simp
  then show ?thesis
    using assms(1) by (cases rule: rd_waitAllE) (auto simp: inv_ids_def pending_ids_def)
next
  case (Wk_Pop i)
  with assms(2) have "wk_pop i s = Some s'" by simp
  then show ?thesis
  proof (cases rule: wk_popE)
    case (1 task rest)
    from worker_sums(5) [OF 1(1) 1(2), of "W_Task task"]
    have "sum_list (map worker_ids ((m_workers s)[i := W_Task task]))
            = add_mset (imageId task) (sum_list (map worker_ids (m_workers s)))"
      by simp
    with assms(1) 1 show ?thesis
      by (simp add: inv_ids_def pending_ids_def)
  qed
next
  case (Wk_Run i t)
  with assms(2) have "wk_run i t s = Some s'" by simp
  then show ?thesis
  proof (cases rule: wk_runE)
    case (1 task)
    from worker_sums(5) [OF 1(1) 1(2), of "W_Lock (task_result (imageId task) t)"]
    have "sum_list (map worker_ids ((m_workers s)[i := W_Lock (task_result (imageId task) t)]))
            = sum_list (map worker_ids (m_workers s))"
      by (simp add: task_result_def)
    with assms(1) 1 show ?thesis
      by (simp add: inv_ids_def pending_ids_def)
  qed
next
  case (Wk_Lock i)
  with assms(2) have "wk_lock i s = Some s'" by simp
  then show ?thesis
  proof (cases rule: wk_lockE)
    case (1 result)
    from worker_sums(5) [OF 1(1) 1(2), of "W_Write result"]
    have "sum_list (map worker_ids ((m_workers s)[i := W_Write result]))
            = sum_list (map worker_ids (m_workers s))"
      by simp
    with assms(1) 1 show ?thesis
      by (simp add: inv_ids_def pending_ids_def)
  qed
next
  case (Wk_Write i ok)
  with assms(2) have "wk_write i ok s = Some s'" by simp
  then show ?thesis
  proof (cases rule: wk_writeE)
    case (1 result)
    from worker_sums(5) [OF 1(1) 1(2), of W_Finish]
    have "sum_list (map worker_ids (m_workers s))
            = add_mset (result_image_id result)
                (sum_list (map worker_ids ((m_workers s)[i := W_Finish])))"
      by simp
    with assms(1) 1 show ?thesis
      by (simp add: inv_ids_def pending_ids_def)
  qed
next
  case (Wk_Finish i)
  with assms(2) have "wk_finish i s = Some s'" by simp
  then show ?thesis
  proof (cases rule: wk_finishE)
    case 1
    from worker_sums(5) [OF 1(1) 1(2), of W_Idle]
    have "sum_list (map worker_ids ((m_workers s)[i := W_Idle]))
            = sum_list (map worker_ids (m_workers s))"
      by simp
    with assms(1) 1 show ?thesis
      by (simp add: inv_ids_def pending_ids_def)
  qed
qed

subsection \<open>The per-session and the pool's task counters\<close>

lemma word_of_nat_Suc_minus_1: "(word_of_nat (Suc k) :: 'a::len word) - 1 = word_of_nat k"
  by simp

lemma inv_active_step:
  assumes "inv_active s" "step e s = Some s'"
  shows "inv_active s'"
proof (cases e)
  case Rd_Read
  with assms(2) have "rd_read s = Some s'" by simp
  then show ?thesis
    using assms(1) by (cases rule: rd_readE) (auto simp: inv_active_def in_flight_def)
next
  case Rd_Dispatch
  with assms(2) have "rd_dispatch s = Some s'" by simp
  then show ?thesis
  proof (cases rule: rd_dispatchE)
    case (empty request)
    with assms(1) show ?thesis by (simp add: inv_active_def in_flight_def)
  next
    case (enqueue request)
    from assms(1) have a: "activeTasks s = word_of_nat (in_flight s)" "in_flight s \<le> 4"
      by (simp_all add: inv_active_def)
    with enqueue(2) have "in_flight s < 4"
      by (simp add: rate_limit_check)
    with a enqueue(4) show ?thesis
      by (simp add: inv_active_def in_flight_def)
  qed
next
  case Rd_Lock
  with assms(2) have "rd_lock s = Some s'" by simp
  then show ?thesis
    using assms(1) by (cases rule: rd_lockE) (auto simp: inv_active_def in_flight_def)
next
  case (Rd_Write ok)
  with assms(2) have "rd_write ok s = Some s'" by simp
  then show ?thesis
    using assms(1) by (cases rule: rd_writeE) (auto simp: inv_active_def in_flight_def)
next
  case Rd_WaitAll
  with assms(2) have "rd_waitAll s = Some s'" by simp
  then show ?thesis
    using assms(1) by (cases rule: rd_waitAllE) (auto simp: inv_active_def in_flight_def)
next
  case (Wk_Pop i)
  with assms(2) have "wk_pop i s = Some s'" by simp
  then show ?thesis
  proof (cases rule: wk_popE)
    case (1 task rest)
    with assms(1) worker_sums(2) [OF 1(1) 1(2), of "W_Task task"] show ?thesis
      by (simp add: inv_active_def in_flight_def)
  qed
next
  case (Wk_Run i t)
  with assms(2) have "wk_run i t s = Some s'" by simp
  then show ?thesis
  proof (cases rule: wk_runE)
    case (1 task)
    from worker_sums(2) [OF 1(1) 1(2), of "W_Lock (task_result (imageId task) t)"]
    have "in_flight s = Suc (in_flight s')"
      using 1 by (simp add: in_flight_def)
    moreover have "activeTasks s' = activeTasks s - 1"
      using 1 by simp
    ultimately show ?thesis
      using assms(1) by (simp add: inv_active_def)
  qed
next
  case (Wk_Lock i)
  with assms(2) have "wk_lock i s = Some s'" by simp
  then show ?thesis
  proof (cases rule: wk_lockE)
    case (1 result)
    with assms(1) worker_sums(2) [OF 1(1) 1(2), of "W_Write result"] show ?thesis
      by (simp add: inv_active_def in_flight_def)
  qed
next
  case (Wk_Write i ok)
  with assms(2) have "wk_write i ok s = Some s'" by simp
  then show ?thesis
  proof (cases rule: wk_writeE)
    case (1 result)
    with assms(1) worker_sums(2) [OF 1(1) 1(2), of W_Finish] show ?thesis
      by (simp add: inv_active_def in_flight_def)
  qed
next
  case (Wk_Finish i)
  with assms(2) have "wk_finish i s = Some s'" by simp
  then show ?thesis
  proof (cases rule: wk_finishE)
    case 1
    with assms(1) worker_sums(2) [OF 1(1) 1(2), of W_Idle] show ?thesis
      by (simp add: inv_active_def in_flight_def)
  qed
qed

lemma inv_pool_step:
  assumes "inv_pool s" "step e s = Some s'"
  shows "inv_pool s'"
proof (cases e)
  case Rd_Read
  with assms(2) have "rd_read s = Some s'" by simp
  then show ?thesis
    using assms(1) by (cases rule: rd_readE) (auto simp: inv_pool_def unfinished_def)
next
  case Rd_Dispatch
  with assms(2) have "rd_dispatch s = Some s'" by simp
  then show ?thesis
    using assms(1) by (cases rule: rd_dispatchE) (auto simp: inv_pool_def unfinished_def)
next
  case Rd_Lock
  with assms(2) have "rd_lock s = Some s'" by simp
  then show ?thesis
    using assms(1) by (cases rule: rd_lockE) (auto simp: inv_pool_def unfinished_def)
next
  case (Rd_Write ok)
  with assms(2) have "rd_write ok s = Some s'" by simp
  then show ?thesis
    using assms(1) by (cases rule: rd_writeE) (auto simp: inv_pool_def unfinished_def)
next
  case Rd_WaitAll
  with assms(2) have "rd_waitAll s = Some s'" by simp
  then show ?thesis
    using assms(1) by (cases rule: rd_waitAllE) (auto simp: inv_pool_def unfinished_def)
next
  case (Wk_Pop i)
  with assms(2) have "wk_pop i s = Some s'" by simp
  then show ?thesis
  proof (cases rule: wk_popE)
    case (1 task rest)
    from worker_sums(3) [OF 1(1) 1(2), of "W_Task task"]
    have "unfinished s' = unfinished s"
      using 1 by (simp add: unfinished_def)
    with assms(1) 1 show ?thesis
      by (simp add: inv_pool_def)
  qed
next
  case (Wk_Run i t)
  with assms(2) have "wk_run i t s = Some s'" by simp
  then show ?thesis
  proof (cases rule: wk_runE)
    case (1 task)
    from worker_sums(3) [OF 1(1) 1(2), of "W_Lock (task_result (imageId task) t)"]
    have "unfinished s' = unfinished s"
      using 1 by (simp add: unfinished_def)
    with assms(1) 1 show ?thesis
      by (simp add: inv_pool_def)
  qed
next
  case (Wk_Lock i)
  with assms(2) have "wk_lock i s = Some s'" by simp
  then show ?thesis
  proof (cases rule: wk_lockE)
    case (1 result)
    from worker_sums(3) [OF 1(1) 1(2), of "W_Write result"]
    have "unfinished s' = unfinished s"
      using 1 by (simp add: unfinished_def)
    with assms(1) 1 show ?thesis
      by (simp add: inv_pool_def)
  qed
next
  case (Wk_Write i ok)
  with assms(2) have "wk_write i ok s = Some s'" by simp
  then show ?thesis
  proof (cases rule: wk_writeE)
    case (1 result)
    from worker_sums(3) [OF 1(1) 1(2), of W_Finish]
    have "unfinished s' = unfinished s"
      using 1 by (simp add: unfinished_def)
    with assms(1) 1 show ?thesis
      by (simp add: inv_pool_def)
  qed
next
  case (Wk_Finish i)
  with assms(2) have "wk_finish i s = Some s'" by simp
  then show ?thesis
  proof (cases rule: wk_finishE)
    case 1
    from worker_sums(3) [OF 1(1) 1(2), of W_Idle]
    have "unfinished s = Suc (unfinished s')"
      using 1 by (simp add: unfinished_def)
    moreover have "m_activeTasks s' = m_activeTasks s - 1"
      using 1 by simp
    ultimately show ?thesis
      using assms(1) by (simp add: inv_pool_def)
  qed
qed

subsection \<open>The byte counter\<close>

lemma list_all_update:
  "list_all P ws \<Longrightarrow> P v \<Longrightarrow> list_all P (ws[i := v])"
  by (auto simp: list_all_iff dest: set_update_subset_insert [THEN subsetD])

lemma list_all_nth:
  "list_all P ws \<Longrightarrow> i < length ws \<Longrightarrow> P (ws ! i)"
  by (simp add: list_all_length)

lemma valid_small:
  "valid c0 requests nproc nthreads \<Longrightarrow> request \<in> set requests \<Longrightarrow>
     length (image_data request) < 2 ^ 63"
  by (simp add: valid_def list_all_iff)

lemma inv_counter_step:
  assumes v: "valid c0 requests nproc nthreads"
    and c: "inv_counter c0 s"
    and sh: "inv_shape requests nproc nthreads s"
    and st: "step e s = Some s'"
  shows "inv_counter c0 s'"
proof -
  from c have g: "unat (g_activeImageSize s) = unat c0 + in_flight_bytes s"
    and b: "unat c0 + in_flight_bytes s + reader_bytes (reader s) \<le> 524288000"
    by (simp_all add: inv_counter_def unat_MAX_MEMORY_USAGE)
  show ?thesis
  proof (cases e)
    case Rd_Read
    with st have "rd_read s = Some s'" by simp
    then show ?thesis
    proof (cases rule: rd_readE)
      case eof
      with c show ?thesis by (simp add: inv_counter_def in_flight_bytes_def)
    next
      case (reject request rest)
      with c show ?thesis by (simp add: inv_counter_def in_flight_bytes_def)
    next
      case (admit request rest)
      with sh have "request \<in> set requests"
        by (auto simp: inv_shape_def)
      with v have small: "length (image_data request) < 2 ^ 63"
        by (rule valid_small)
      from g b have "unat (g_activeImageSize s) \<le> 524288000"
        by simp
      with small admit(3) have "unat (g_activeImageSize s) + length (image_data request) \<le> 524288000"
        by (simp add: memory_check)
      with g admit show ?thesis
        by (simp add: inv_counter_def in_flight_bytes_def unat_MAX_MEMORY_USAGE)
    qed
  next
    case Rd_Dispatch
    with st have "rd_dispatch s = Some s'" by simp
    then show ?thesis
    proof (cases rule: rd_dispatchE)
      case (empty request)
      with c show ?thesis by (simp add: inv_counter_def in_flight_bytes_def)
    next
      case (enqueue request)
      with sh have "request \<in> set requests"
        by (simp add: inv_shape_def)
      with v have small: "length (image_data request) < 2 ^ 63"
        by (rule valid_small)
      from g b have "unat (g_activeImageSize s) \<le> 524288000"
        by simp
      with small have "unat (g_activeImageSize s + size_of (image_data request))
          = unat (g_activeImageSize s) + length (image_data request)"
        by (simp add: unat_add_size_of)
      moreover have "g_activeImageSize s' = g_activeImageSize s + size_of (image_data request)"
        using enqueue by simp
      moreover have "in_flight_bytes s' = in_flight_bytes s + length (image_data request)"
        using enqueue by (simp add: in_flight_bytes_def)
      moreover have "reader_bytes (reader s') = 0"
        using enqueue by simp
      moreover have "reader_bytes (reader s) = length (image_data request)"
        using enqueue by simp
      ultimately show ?thesis
        using g b by (simp add: inv_counter_def unat_MAX_MEMORY_USAGE)
    qed
  next
    case Rd_Lock
    with st have "rd_lock s = Some s'" by simp
    then show ?thesis
      using c by (cases rule: rd_lockE) (auto simp: inv_counter_def in_flight_bytes_def)
  next
    case (Rd_Write ok)
    with st have "rd_write ok s = Some s'" by simp
    then show ?thesis
      using c by (cases rule: rd_writeE) (auto simp: inv_counter_def in_flight_bytes_def)
  next
    case Rd_WaitAll
    with st have "rd_waitAll s = Some s'" by simp
    then show ?thesis
      using c by (cases rule: rd_waitAllE) (auto simp: inv_counter_def in_flight_bytes_def)
  next
    case (Wk_Pop i)
    with st have "wk_pop i s = Some s'" by simp
    then show ?thesis
    proof (cases rule: wk_popE)
      case (1 task rest)
      from worker_sums(1) [OF 1(1) 1(2), of "W_Task task"]
      have "in_flight_bytes s' = in_flight_bytes s"
        using 1 by (simp add: in_flight_bytes_def)
      moreover have "g_activeImageSize s' = g_activeImageSize s" "reader s' = reader s"
        using 1 by simp_all
      ultimately show ?thesis
        using c by (simp add: inv_counter_def)
    qed
  next
    case (Wk_Run i t)
    with st have "wk_run i t s = Some s'" by simp
    then show ?thesis
    proof (cases rule: wk_runE)
      case (1 task)
      from sh 1 have "worker_ok requests nproc (W_Task task)"
        by (metis inv_shape_def list_all_nth)
      then have small: "length (imageData task) < 2 ^ 63"
        by (simp add: good_task_def)
      from worker_sums(1) [OF 1(1) 1(2), of "W_Lock (task_result (imageId task) t)"]
      have f: "in_flight_bytes s = in_flight_bytes s' + length (imageData task)"
        using 1 by (simp add: in_flight_bytes_def)
      with g have "length (imageData task) \<le> unat (g_activeImageSize s)"
        by simp
      with small have "unat (g_activeImageSize s - size_of (imageData task))
          = unat (g_activeImageSize s) - length (imageData task)"
        by (simp add: unat_sub_size_of)
      moreover have "g_activeImageSize s' = g_activeImageSize s - size_of (imageData task)"
        "reader s' = reader s"
        using 1 by simp_all
      ultimately show ?thesis
        using g b f by (simp add: inv_counter_def unat_MAX_MEMORY_USAGE)
    qed
  next
    case (Wk_Lock i)
    with st have "wk_lock i s = Some s'" by simp
    then show ?thesis
    proof (cases rule: wk_lockE)
      case (1 result)
      from worker_sums(1) [OF 1(1) 1(2), of "W_Write result"]
      have "in_flight_bytes s' = in_flight_bytes s"
        using 1 by (simp add: in_flight_bytes_def)
      moreover have "g_activeImageSize s' = g_activeImageSize s" "reader s' = reader s"
        using 1 by simp_all
      ultimately show ?thesis
        using c by (simp add: inv_counter_def)
    qed
  next
    case (Wk_Write i ok)
    with st have "wk_write i ok s = Some s'" by simp
    then show ?thesis
    proof (cases rule: wk_writeE)
      case (1 result)
      from worker_sums(1) [OF 1(1) 1(2), of W_Finish]
      have "in_flight_bytes s' = in_flight_bytes s"
        using 1 by (simp add: in_flight_bytes_def)
      moreover have "g_activeImageSize s' = g_activeImageSize s" "reader s' = reader s"
        using 1 by simp_all
      ultimately show ?thesis
        using c by (simp add: inv_counter_def)
    qed
  next
    case (Wk_Finish i)
    with st have "wk_finish i s = Some s'" by simp
    then show ?thesis
    proof (cases rule: wk_finishE)
      case 1
      from worker_sums(1) [OF 1(1) 1(2), of W_Idle]
      have "in_flight_bytes s' = in_flight_bytes s"
        using 1 by (simp add: in_flight_bytes_def)
      moreover have "g_activeImageSize s' = g_activeImageSize s" "reader s' = reader s"
        using 1 by simp_all
      ultimately show ?thesis
        using c by (simp add: inv_counter_def)
    qed
  qed
qed

subsection \<open>Where requests, tasks and results come from\<close>

lemma good_result_memory_limit:
  "request \<in> set requests \<Longrightarrow> image_data request \<noteq> [] \<Longrightarrow>
     good_result requests (memory_limit_result (image_id request))"
  by (auto simp: good_result_def)

lemma good_result_empty_data:
  "request \<in> set requests \<Longrightarrow> image_data request = [] \<Longrightarrow>
     good_result requests (empty_data_result (image_id request))"
  by (auto simp: good_result_def)

lemma good_result_task:
  assumes "good_task requests nproc task"
  shows "good_result requests (task_result (imageId task) extractedText)"
proof -
  from assms obtain request where r: "request \<in> set requests"
    "image_id request = imageId task" "image_data request \<noteq> []"
    by (auto simp: good_task_def)
  have "extracted_text (task_result (imageId task) extractedText) = extractedText"
    by (simp add: task_result_def)
  with r(2,3) have
    "if image_data request = []
     then task_result (imageId task) extractedText = empty_data_result (image_id request)
     else task_result (imageId task) extractedText = memory_limit_result (image_id request)
          \<or> task_result (imageId task) extractedText
              = task_result (image_id request)
                  (extracted_text (task_result (imageId task) extractedText))"
    by simp
  with r(1) show ?thesis
    unfolding good_result_def by (rule bexI [rotated])
qed

lemma inv_shape_step:
  assumes v: "valid c0 requests nproc nthreads"
    and c: "inv_counter c0 s"
    and sh: "inv_shape requests nproc nthreads s"
    and st: "step e s = Some s'"
  shows "inv_shape requests nproc nthreads s'"
proof (cases e)
  case Rd_Read
  with st have "rd_read s = Some s'" by simp
  then show ?thesis
  proof (cases rule: rd_readE)
    case eof
    with sh show ?thesis by (simp add: inv_shape_def)
  next
    case (reject request rest)
    with sh have r: "request \<in> set requests"
      by (auto simp: inv_shape_def)
    with v have small: "length (image_data request) < 2 ^ 63"
      by (rule valid_small)
    from c have "unat (g_activeImageSize s) \<le> 524288000"
      by (simp add: inv_counter_def unat_MAX_MEMORY_USAGE)
    with small reject(3) have "524288000 < unat (g_activeImageSize s) + length (image_data request)"
      by (simp add: memory_check)
    with \<open>unat (g_activeImageSize s) \<le> 524288000\<close> have "image_data request \<noteq> []"
      by auto
    with r have "good_result requests (memory_limit_result (image_id request))"
      by (rule good_result_memory_limit)
    with sh reject show ?thesis
      by (simp add: inv_shape_def)
  next
    case (admit request rest)
    with sh show ?thesis by (simp add: inv_shape_def)
  qed
next
  case Rd_Dispatch
  with st have "rd_dispatch s = Some s'" by simp
  then show ?thesis
  proof (cases rule: rd_dispatchE)
    case (empty request)
    with sh have "request \<in> set requests"
      by (simp add: inv_shape_def)
    then have "good_result requests (empty_data_result (image_id request))"
      using empty(3) by (rule good_result_empty_data)
    with sh empty show ?thesis
      by (simp add: inv_shape_def)
  next
    case (enqueue request)
    let ?task = "\<lparr>imageId = image_id request, task_filename = filename request,
                   imageData = image_data request,
                   processor = processorIndex (m_nextProcessorIndex s) (m_processors_size s)\<rparr>"
    from sh enqueue have r: "request \<in> set requests"
      by (simp add: inv_shape_def)
    with v have small: "length (image_data request) < 2 ^ 63"
      by (rule valid_small)
    from sh have np: "m_processors_size s = nproc"
      by (simp add: inv_shape_def)
    from v have "0 < unat nproc" "unat nproc \<le> 2 ^ 31"
      by (simp_all add: valid_def)
    then have "unat (scast (processorIndex (m_nextProcessorIndex s) nproc) :: 64 word)
                 = unat (scast (m_nextProcessorIndex s) :: 64 word) mod unat nproc"
      by (rule processorIndex_unat)
    with \<open>0 < unat nproc\<close>
    have "unat (scast (processorIndex (m_nextProcessorIndex s) nproc) :: 64 word) < unat nproc"
      by simp
    with r small enqueue(3) np have "good_task requests nproc ?task"
      by (auto simp: good_task_def)
    with sh enqueue show ?thesis
      by (simp add: inv_shape_def)
  qed
next
  case Rd_Lock
  with st have "rd_lock s = Some s'" by simp
  then show ?thesis
    using sh by (cases rule: rd_lockE) (auto simp: inv_shape_def)
next
  case (Rd_Write ok)
  with st have "rd_write ok s = Some s'" by simp
  then show ?thesis
    using sh by (cases rule: rd_writeE) (auto simp: inv_shape_def)
next
  case Rd_WaitAll
  with st have "rd_waitAll s = Some s'" by simp
  then show ?thesis
    using sh by (cases rule: rd_waitAllE) (auto simp: inv_shape_def)
next
  case (Wk_Pop i)
  with st have "wk_pop i s = Some s'" by simp
  then show ?thesis
  proof (cases rule: wk_popE)
    case (1 task rest)
    with sh have "worker_ok requests nproc (W_Task task)"
      by (simp add: inv_shape_def)
    moreover from sh have "list_all (worker_ok requests nproc) (m_workers s)"
      by (simp add: inv_shape_def)
    ultimately have "list_all (worker_ok requests nproc) ((m_workers s)[i := W_Task task])"
      by (intro list_all_update)
    with sh 1 show ?thesis
      by (simp add: inv_shape_def)
  qed
next
  case (Wk_Run i t)
  with st have "wk_run i t s = Some s'" by simp
  then show ?thesis
  proof (cases rule: wk_runE)
    case (1 task)
    from sh have ws: "list_all (worker_ok requests nproc) (m_workers s)"
      by (simp add: inv_shape_def)
    with 1 have "worker_ok requests nproc (W_Task task)"
      by (metis list_all_nth)
    then have "worker_ok requests nproc (W_Lock (task_result (imageId task) t))"
      by (simp add: good_result_task)
    with ws have "list_all (worker_ok requests nproc)
                    ((m_workers s)[i := W_Lock (task_result (imageId task) t)])"
      by (intro list_all_update)
    with sh 1 show ?thesis
      by (simp add: inv_shape_def)
  qed
next
  case (Wk_Lock i)
  with st have "wk_lock i s = Some s'" by simp
  then show ?thesis
  proof (cases rule: wk_lockE)
    case (1 result)
    from sh have ws: "list_all (worker_ok requests nproc) (m_workers s)"
      by (simp add: inv_shape_def)
    with 1 have "worker_ok requests nproc (W_Lock result)"
      by (metis list_all_nth)
    then have "worker_ok requests nproc (W_Write result)"
      by simp
    with ws have "list_all (worker_ok requests nproc) ((m_workers s)[i := W_Write result])"
      by (intro list_all_update)
    with sh 1 show ?thesis
      by (simp add: inv_shape_def)
  qed
next
  case (Wk_Write i ok)
  with st have "wk_write i ok s = Some s'" by simp
  then show ?thesis
  proof (cases rule: wk_writeE)
    case (1 result)
    from sh have ws: "list_all (worker_ok requests nproc) (m_workers s)"
      by (simp add: inv_shape_def)
    with 1 have "worker_ok requests nproc (W_Write result)"
      by (metis list_all_nth)
    then have "good_result requests result"
      by simp
    moreover from ws have "list_all (worker_ok requests nproc) ((m_workers s)[i := W_Finish])"
      by (intro list_all_update) simp_all
    ultimately show ?thesis
      using sh 1 by (simp add: inv_shape_def)
  qed
next
  case (Wk_Finish i)
  with st have "wk_finish i s = Some s'" by simp
  then show ?thesis
  proof (cases rule: wk_finishE)
    case 1
    from sh have "list_all (worker_ok requests nproc) (m_workers s)"
      by (simp add: inv_shape_def)
    then have "list_all (worker_ok requests nproc) ((m_workers s)[i := W_Idle])"
      by (intro list_all_update) simp_all
    with sh 1 show ?thesis
      by (simp add: inv_shape_def)
  qed
qed

subsection \<open>The end of the session\<close>

lemma sum_worker_busy_le: "sum_list (map worker_busy ws) \<le> length ws"
proof (induction ws)
  case Nil
  then show ?case by simp
next
  case (Cons w ws)
  have "worker_busy w \<le> 1" by (cases w) simp_all
  with Cons show ?case by simp
qed

lemma nth_le_sum_list:
  fixes f :: "'a \<Rightarrow> nat"
  shows "i < length xs \<Longrightarrow> f (xs ! i) \<le> sum_list (map f xs)"
  by (simp add: member_le_sum_list)

lemma busy_worker_unfinished:
  assumes "i < length (m_workers s)" "m_workers s ! i \<noteq> W_Idle"
  shows "0 < unfinished s"
proof -
  have "worker_busy (m_workers s ! i) = 1"
    using assms(2) by (cases "m_workers s ! i") simp_all
  moreover have "worker_busy (m_workers s ! i) \<le> sum_list (map worker_busy (m_workers s))"
    using assms(1) by (rule nth_le_sum_list)
  ultimately show ?thesis
    by (simp add: unfinished_def)
qed

lemma inv_done_step:
  assumes v: "valid c0 requests nproc nthreads"
    and p: "inv_pool s"
    and sh: "inv_shape requests nproc nthreads s"
    and d: "inv_done s"
    and st: "step e s = Some s'"
  shows "inv_done s'"
proof (cases e)
  case Rd_Read
  with st have "rd_read s = Some s'" by simp
  then show ?thesis
    using d by (cases rule: rd_readE) (auto simp: inv_done_def)
next
  case Rd_Dispatch
  with st have "rd_dispatch s = Some s'" by simp
  then show ?thesis
    using d by (cases rule: rd_dispatchE) (auto simp: inv_done_def)
next
  case Rd_Lock
  with st have "rd_lock s = Some s'" by simp
  then show ?thesis
    using d by (cases rule: rd_lockE) (auto simp: inv_done_def)
next
  case (Rd_Write ok)
  with st have "rd_write ok s = Some s'" by simp
  then show ?thesis
    using d by (cases rule: rd_writeE) (auto simp: inv_done_def)
next
  case Rd_WaitAll
  with st have "rd_waitAll s = Some s'" by simp
  then show ?thesis
  proof (cases rule: rd_waitAllE)
    case 1
    have "sum_list (map worker_busy (m_workers s)) \<le> length (m_workers s)"
      by (rule sum_worker_busy_le)
    moreover from sh have "length (m_workers s) = nthreads"
      by (simp add: inv_shape_def)
    moreover from v have "nthreads < 2 ^ 31"
      by (simp add: valid_def)
    ultimately have "unfinished s < 2 ^ 32"
      using 1(2) by (simp add: unfinished_def)
    moreover from p 1(3) have "(word_of_nat (unfinished s) :: 32 word) = 0"
      by (simp add: inv_pool_def)
    ultimately have "unfinished s = 0"
      by (simp add: pool_drained)
    moreover have "unfinished s' = unfinished s" "stream_in s' = stream_in s"
      using 1 by (simp_all add: unfinished_def)
    ultimately show ?thesis
      using d 1 by (simp add: inv_done_def)
  qed
next
  case (Wk_Pop i)
  with st have "wk_pop i s = Some s'" by simp
  then show ?thesis
  proof (cases rule: wk_popE)
    case (1 task rest)
    then have "0 < unfinished s"
      by (simp add: unfinished_def)
    moreover have "reader s' = reader s" "stream_in s' = stream_in s"
      using 1 by simp_all
    ultimately show ?thesis
      using d by (auto simp: inv_done_def split: if_splits)
  qed
next
  case (Wk_Run i t)
  with st have "wk_run i t s = Some s'" by simp
  then show ?thesis
  proof (cases rule: wk_runE)
    case (1 task)
    then have "0 < unfinished s"
      by (intro busy_worker_unfinished [of i]) simp_all
    moreover have "reader s' = reader s" "stream_in s' = stream_in s"
      using 1 by simp_all
    ultimately show ?thesis
      using d by (auto simp: inv_done_def split: if_splits)
  qed
next
  case (Wk_Lock i)
  with st have "wk_lock i s = Some s'" by simp
  then show ?thesis
  proof (cases rule: wk_lockE)
    case (1 result)
    then have "0 < unfinished s"
      by (intro busy_worker_unfinished [of i]) simp_all
    moreover have "reader s' = reader s" "stream_in s' = stream_in s"
      using 1 by simp_all
    ultimately show ?thesis
      using d by (auto simp: inv_done_def split: if_splits)
  qed
next
  case (Wk_Write i ok)
  with st have "wk_write i ok s = Some s'" by simp
  then show ?thesis
  proof (cases rule: wk_writeE)
    case (1 result)
    then have "0 < unfinished s"
      by (intro busy_worker_unfinished [of i]) simp_all
    moreover have "reader s' = reader s" "stream_in s' = stream_in s"
      using 1 by simp_all
    ultimately show ?thesis
      using d by (auto simp: inv_done_def split: if_splits)
  qed
next
  case (Wk_Finish i)
  with st have "wk_finish i s = Some s'" by simp
  then show ?thesis
  proof (cases rule: wk_finishE)
    case 1
    then have "0 < unfinished s"
      by (intro busy_worker_unfinished [of i]) simp_all
    moreover have "reader s' = reader s" "stream_in s' = stream_in s"
      using 1 by simp_all
    ultimately show ?thesis
      using d by (auto simp: inv_done_def split: if_splits)
  qed
qed

theorem inv_step:
  assumes "valid c0 requests nproc nthreads" "inv c0 requests nproc nthreads s"
    "step e s = Some s'"
  shows "inv c0 requests nproc nthreads s'"
  using assms unfolding inv_def
  by (metis inv_counter_step inv_active_step inv_pool_step inv_mutex_step inv_ids_step
      inv_shape_step inv_done_step)

lemma inv_run:
  assumes "valid c0 requests nproc nthreads"
  shows "inv c0 requests nproc nthreads s \<Longrightarrow> run es s = Some s' \<Longrightarrow>
           inv c0 requests nproc nthreads s'"
proof (induction es arbitrary: s)
  case Nil
  then show ?case by simp
next
  case (Cons e es)
  from Cons.prems(2) obtain s1 where s1: "step e s = Some s1" "run es s1 = Some s'"
    by (auto split: option.splits)
  from assms Cons.prems(1) s1(1) have "inv c0 requests nproc nthreads s1"
    by (rule inv_step)
  then show ?case
    using s1(2) by (rule Cons.IH)
qed

subsection \<open>Every schedule is finite, and none gets stuck before the session returns\<close>

lemma step_weight:
  assumes "step e s = Some s'"
  shows "weight s' < weight s"
proof (cases e)
  case Rd_Read
  with assms have "rd_read s = Some s'" by simp
  then show ?thesis
    by (cases rule: rd_readE) (auto simp: weight_def)
next
  case Rd_Dispatch
  with assms have "rd_dispatch s = Some s'" by simp
  then show ?thesis
    by (cases rule: rd_dispatchE) (auto simp: weight_def)
next
  case Rd_Lock
  with assms have "rd_lock s = Some s'" by simp
  then show ?thesis
    by (cases rule: rd_lockE) (auto simp: weight_def)
next
  case (Rd_Write ok)
  with assms have "rd_write ok s = Some s'" by simp
  then show ?thesis
    by (cases rule: rd_writeE) (auto simp: weight_def)
next
  case Rd_WaitAll
  with assms have "rd_waitAll s = Some s'" by simp
  then show ?thesis
    by (cases rule: rd_waitAllE) (auto simp: weight_def)
next
  case (Wk_Pop i)
  with assms have "wk_pop i s = Some s'" by simp
  then show ?thesis
  proof (cases rule: wk_popE)
    case (1 task rest)
    with sum_list_update_add [of i "m_workers s" worker_weight "W_Task task"] show ?thesis
      by (simp add: weight_def)
  qed
next
  case (Wk_Run i t)
  with assms have "wk_run i t s = Some s'" by simp
  then show ?thesis
  proof (cases rule: wk_runE)
    case (1 task)
    with sum_list_update_add [of i "m_workers s" worker_weight
        "W_Lock (task_result (imageId task) t)"]
    show ?thesis
      by (simp add: weight_def)
  qed
next
  case (Wk_Lock i)
  with assms have "wk_lock i s = Some s'" by simp
  then show ?thesis
  proof (cases rule: wk_lockE)
    case (1 result)
    with sum_list_update_add [of i "m_workers s" worker_weight "W_Write result"] show ?thesis
      by (simp add: weight_def)
  qed
next
  case (Wk_Write i ok)
  with assms have "wk_write i ok s = Some s'" by simp
  then show ?thesis
  proof (cases rule: wk_writeE)
    case (1 result)
    with sum_list_update_add [of i "m_workers s" worker_weight W_Finish] show ?thesis
      by (simp add: weight_def)
  qed
next
  case (Wk_Finish i)
  with assms have "wk_finish i s = Some s'" by simp
  then show ?thesis
  proof (cases rule: wk_finishE)
    case 1
    with sum_list_update_add [of i "m_workers s" worker_weight W_Idle] show ?thesis
      by (simp add: weight_def)
  qed
qed

lemma run_weight: "run es s = Some s' \<Longrightarrow> weight s' + length es \<le> weight s"
proof (induction es arbitrary: s)
  case Nil
  then show ?case by simp
next
  case (Cons e es)
  from Cons.prems obtain s1 where s1: "step e s = Some s1" "run es s1 = Some s'"
    by (auto split: option.splits)
  from s1(1) have "weight s1 < weight s"
    by (rule step_weight)
  moreover from s1(2) have "weight s' + length es \<le> weight s1"
    by (rule Cons.IH)
  ultimately show ?case by simp
qed

lemma weight_init:
  "weight (ProcessImages c0 nproc nthreads requests) = 8 * length requests + 2"
  by (simp add: weight_def ProcessImages_def)

lemma sum_list_pos_nth:
  fixes f :: "'a \<Rightarrow> nat"
  shows "0 < sum_list (map f xs) \<Longrightarrow> \<exists>i<length xs. 0 < f (xs ! i)"
proof (induction xs)
  case Nil
  then show ?case by simp
next
  case (Cons x xs)
  show ?case
  proof (cases "0 < f x")
    case True
    then have "0 < length (x # xs) \<and> 0 < f ((x # xs) ! 0)" by simp
    then show ?thesis by blast
  next
    case False
    with Cons.prems have "0 < sum_list (map f xs)" by simp
    then obtain i where "i < length xs" "0 < f (xs ! i)"
      using Cons.IH by blast
    then have "Suc i < length (x # xs) \<and> 0 < f ((x # xs) ! Suc i)" by simp
    then show ?thesis by blast
  qed
qed

lemma writer_progress:
  assumes "inv_mutex s" "m_streamMutex s \<noteq> None"
  shows "\<exists>e s'. step e s = Some s'"
proof -
  from assms have w: "writers s = 1"
    by (auto simp: inv_mutex_def)
  show ?thesis
  proof (cases "reader_writing (reader s) = 0")
    case False
    then obtain result where "reader s = R_Write result"
      by (cases "reader s") simp_all
    then have "step (Rd_Write True) s \<noteq> None"
      by (simp add: rd_write_def)
    then show ?thesis by blast
  next
    case True
    with w have "0 < sum_list (map worker_writing (m_workers s))"
      by (simp add: writers_def)
    then obtain i where i: "i < length (m_workers s)" "0 < worker_writing (m_workers s ! i)"
      using sum_list_pos_nth by blast
    then obtain result where "m_workers s ! i = W_Write result"
      by (cases "m_workers s ! i") simp_all
    with i(1) have "step (Wk_Write i True) s \<noteq> None"
      by (simp add: wk_write_def)
    then show ?thesis by blast
  qed
qed

lemma worker_progress:
  assumes "inv_mutex s" "0 < unfinished s" "m_workers s \<noteq> []"
  shows "\<exists>e s'. step e s = Some s'"
proof (cases "0 < sum_list (map worker_busy (m_workers s))")
  case True
  then obtain i where i: "i < length (m_workers s)" "0 < worker_busy (m_workers s ! i)"
    using sum_list_pos_nth by blast
  show ?thesis
  proof (cases "m_workers s ! i")
    case W_Idle
    with i(2) show ?thesis by simp
  next
    case (W_Task task)
    with i(1) have "step (Wk_Run i []) s \<noteq> None"
      by (simp add: wk_run_def)
    then show ?thesis by blast
  next
    case (W_Lock result)
    show ?thesis
    proof (cases "m_streamMutex s")
      case None
      with W_Lock i(1) have "step (Wk_Lock i) s \<noteq> None"
        by (simp add: wk_lock_def)
      then show ?thesis by blast
    next
      case (Some holder)
      with assms(1) show ?thesis
        by (intro writer_progress) simp_all
    qed
  next
    case (W_Write result)
    with i(1) have "step (Wk_Write i True) s \<noteq> None"
      by (simp add: wk_write_def)
    then show ?thesis by blast
  next
    case W_Finish
    with i(1) have "step (Wk_Finish i) s \<noteq> None"
      by (simp add: wk_finish_def)
    then show ?thesis by blast
  qed
next
  case False
  with assms(2) have "m_tasks s \<noteq> []"
    by (simp add: unfinished_def)
  then obtain task rest where t: "m_tasks s = task # rest"
    by (cases "m_tasks s") simp_all
  from assms(3) have l: "0 < length (m_workers s)"
    by simp
  have "worker_busy (m_workers s ! 0) \<le> sum_list (map worker_busy (m_workers s))"
    using l by (rule nth_le_sum_list)
  with False have "worker_busy (m_workers s ! 0) = 0"
    by linarith
  then have "m_workers s ! 0 = W_Idle"
    by (cases "m_workers s ! 0") simp_all
  with t l have "step (Wk_Pop 0) s \<noteq> None"
    by (simp add: wk_pop_def)
  then show ?thesis by blast
qed

lemma in_flight_le_unfinished: "in_flight s \<le> unfinished s"
proof -
  have "sum_list (map worker_tasks ws) \<le> sum_list (map worker_busy ws)" for ws
  proof (induction ws)
    case Nil
    then show ?case by simp
  next
    case (Cons w ws)
    have "worker_tasks w \<le> worker_busy w" by (cases w) simp_all
    with Cons show ?case by simp
  qed
  then show ?thesis
    by (simp add: in_flight_def unfinished_def)
qed

lemma progress:
  assumes v: "valid c0 requests nproc nthreads"
    and i: "inv c0 requests nproc nthreads s"
    and r: "reader s \<noteq> R_Return"
  shows "\<exists>e s'. step e s = Some s'"
proof -
  from i have mu: "inv_mutex s" and ac: "inv_active s" and po: "inv_pool s"
    and sh: "inv_shape requests nproc nthreads s"
    by (simp_all add: inv_def)
  from sh v have ws: "m_workers s \<noteq> []"
    by (auto simp: inv_shape_def valid_def)
  show ?thesis
  proof (cases "reader s")
    case R_Read
    then have "step Rd_Read s \<noteq> None"
      by (simp add: rd_read_def Let_def split: list.splits)
    then show ?thesis by blast
  next
    case (R_RateLimit request)
    show ?thesis
    proof (cases "MAX_CONCURRENT_TASKS \<le>s activeTasks s")
      case False
      with R_RateLimit have "step Rd_Dispatch s \<noteq> None"
        by (simp add: rd_dispatch_def Let_def)
      then show ?thesis by blast
    next
      case True
      with ac have "4 \<le> in_flight s"
        by (simp add: inv_active_def rate_limit_check)
      with in_flight_le_unfinished [of s] have "0 < unfinished s"
        by simp
      with mu ws show ?thesis
        by (intro worker_progress)
    qed
  next
    case (R_Lock result)
    show ?thesis
    proof (cases "m_streamMutex s")
      case None
      with R_Lock have "step Rd_Lock s \<noteq> None"
        by (simp add: rd_lock_def)
      then show ?thesis by blast
    next
      case (Some holder)
      with mu show ?thesis
        by (intro writer_progress) simp_all
    qed
  next
    case (R_Write result)
    then have "step (Rd_Write True) s \<noteq> None"
      by (simp add: rd_write_def)
    then show ?thesis by blast
  next
    case R_WaitAll
    show ?thesis
    proof (cases "m_tasks s = [] \<and> m_activeTasks s = 0")
      case True
      with R_WaitAll have "step Rd_WaitAll s \<noteq> None"
        by (simp add: rd_waitAll_def)
      then show ?thesis by blast
    next
      case False
      have "unfinished s \<noteq> 0"
      proof
        assume u: "unfinished s = 0"
        then have "m_tasks s = []"
          by (simp add: unfinished_def)
        moreover from po u have "m_activeTasks s = 0"
          by (simp add: inv_pool_def)
        ultimately show False
          using False by simp
      qed
      then have "0 < unfinished s"
        by simp
      with mu ws show ?thesis
        by (intro worker_progress)
    qed
  next
    case R_Return
    with r show ?thesis by simp
  qed
qed

lemma count_mset_map:
  "count (mset (map f xs)) x = length (filter (\<lambda>y. f y = x) xs)"
  by (induction xs) auto

lemma task_result_error_message:
  assumes "result = task_result iid (extracted_text result)" "\<not> success result"
  shows "error_message result \<noteq> []"
proof -
  from assms(1) have "success result = success (task_result iid (extracted_text result))"
    by (rule arg_cong)
  with assms(2) have "extracted_text result = []"
    by (simp add: task_result_def)
  moreover from assms(1)
  have "error_message result = error_message (task_result iid (extracted_text result))"
    by (rule arg_cong)
  ultimately show ?thesis
    by (simp add: task_result_def)
qed

lemma good_result_error_message:
  assumes "good_result requests result" "\<not> success result"
  shows "error_message result \<noteq> []"
proof -
  from assms(1) obtain request :: ImageRequest where r:
    "if image_data request = [] then result = empty_data_result (image_id request)
     else result = memory_limit_result (image_id request)
          \<or> result = task_result (image_id request) (extracted_text result)"
    unfolding good_result_def by blast
  show ?thesis
  proof (cases "image_data request = []")
    case True
    with r show ?thesis by (simp add: empty_data_result_def)
  next
    case False
    with r have "result = memory_limit_result (image_id request)
          \<or> result = task_result (image_id request) (extracted_text result)"
      by simp
    then show ?thesis
    proof
      assume "result = memory_limit_result (image_id request)"
      then show ?thesis by (simp add: memory_limit_result_def)
    next
      assume "result = task_result (image_id request) (extracted_text result)"
      then show ?thesis using assms(2) by (rule task_result_error_message)
    qed
  qed
qed

lemma sum_list_all_zero:
  fixes f :: "'a \<Rightarrow> 'b::monoid_add"
  shows "(\<And>x. x \<in> set xs \<Longrightarrow> f x = 0) \<Longrightarrow> sum_list (map f xs) = 0"
  by (induction xs) simp_all


lemma final_state:
  assumes v: "valid c0 requests nproc nthreads"
    and run: "run es (ProcessImages c0 nproc nthreads requests) = Some s"
    and ret: "reader s = R_Return"
  shows "mset (map (\<lambda>w. result_image_id (fst w)) (stream_out s)) = mset (map image_id requests)"
    and "g_activeImageSize s = c0"
    and "m_tasks s = []"
proof -
  from v have "inv c0 requests nproc nthreads (ProcessImages c0 nproc nthreads requests)"
    by (rule inv_init)
  with v have i: "inv c0 requests nproc nthreads s"
    using run by (rule inv_run)
  then have d: "inv_done s" and ids: "inv_ids requests s" and c: "inv_counter c0 s"
    by (simp_all add: inv_def)
  from d ret have u: "unfinished s = 0" and sin: "stream_in s = []"
    by (simp_all add: inv_done_def)
  from u have t: "m_tasks s = []" and b: "sum_list (map worker_busy (m_workers s)) = 0"
    by (simp_all add: unfinished_def)
  have idle: "w = W_Idle" if "w \<in> set (m_workers s)" for w
  proof -
    from b that have "worker_busy w = 0" by simp
    then show ?thesis by (cases w) simp_all
  qed
  have "worker_ids w = 0" "worker_bytes w = 0" if "w \<in> set (m_workers s)" for w
    using idle [OF that] by simp_all
  then have "sum_list (map worker_ids (m_workers s)) = 0"
    "sum_list (map worker_bytes (m_workers s)) = 0"
    by (simp_all only: sum_list_all_zero)
  then have z: "sum_list (map worker_ids (m_workers s)) = {#}"
    "sum_list (map worker_bytes (m_workers s)) = 0"
    by simp_all
  from ids show "mset (map (\<lambda>w. result_image_id (fst w)) (stream_out s)) = mset (map image_id requests)"
    by (simp add: inv_ids_def pending_ids_def sin ret t z)
  from c have "unat (g_activeImageSize s) = unat c0"
    by (simp add: inv_counter_def in_flight_bytes_def t z)
  then show "g_activeImageSize s = c0"
    by (rule word_unat_eq_iff [THEN iffD2])
  show "m_tasks s = []" by (rule t)
qed

lemma reachable_inv:
  assumes "valid c0 requests nproc nthreads"
    and "run es (ProcessImages c0 nproc nthreads requests) = Some s"
  shows "inv c0 requests nproc nthreads s"
  using assms(1) inv_init [OF assms(1)] assms(2) by (rule inv_run)

lemma final_count:
  assumes "valid c0 requests nproc nthreads"
    and "run es (ProcessImages c0 nproc nthreads requests) = Some s"
    and "reader s = R_Return"
    and "distinct (map image_id requests)"
    and "request \<in> set requests"
  shows "length (filter (\<lambda>w. result_image_id (fst w) = image_id request) (stream_out s)) = 1"
proof -
  have "length (filter (\<lambda>w. result_image_id (fst w) = image_id request) (stream_out s))
          = count (mset (map (\<lambda>w. result_image_id (fst w)) (stream_out s))) (image_id request)"
    by (simp only: count_mset_map)
  also have "\<dots> = count (mset (map image_id requests)) (image_id request)"
    using final_state(1) [OF assms(1-3)] by simp
  also have "\<dots> = 1"
    using assms(4,5) by (simp add: distinct_count_atmost_1)
  finally show ?thesis .
qed

lemma written_results_good:
  assumes "valid c0 requests nproc nthreads"
    and "run es (ProcessImages c0 nproc nthreads requests) = Some s"
    and "w \<in> set (stream_out s)"
  shows "good_result requests (fst w)"
proof -
  from assms(1,2) have "inv_shape requests nproc nthreads s"
    using reachable_inv by (simp add: inv_def)
  with assms(3) show ?thesis
    by (simp add: inv_shape_def list_all_iff)
qed


lemma good_result_explicit:
  assumes "good_result requests result"
  shows "\<exists>request\<in>set requests.
           if image_data request = []
           then result = \<lparr>result_image_id = image_id request, extracted_text = [],
                          success = False, error_message = ''Empty image data''\<rparr>
           else result = \<lparr>result_image_id = image_id request, extracted_text = [],
                          success = False, error_message = ''Server memory limit exceeded''\<rparr>
                \<or> result = \<lparr>result_image_id = image_id request,
                             extracted_text = extracted_text result,
                             success = (extracted_text result \<noteq> []),
                             error_message = (if extracted_text result = []
                                              then ''OCR failed to extract text'' else [])\<rparr>"
  using assms
  unfolding good_result_def empty_data_result_def memory_limit_result_def task_result_def .

text \<open>
  A session that has the service to itself. A schedule is any list of events; \<open>run\<close>
  returns \<open>None\<close> when an event is not enabled. From the start of the session over
  \<open>requests\<close>, every schedule has at most \<open>8 * length requests + 2\<close> events, and as long
  as the session has not returned some event is enabled: every maximal schedule ends
  with the session returned. At that point the results handed to \<open>stream->Write\<close> carry
  exactly the image ids of the requests, each as often as it was sent (once, when the
  ids are distinct). Each written result belongs to a request of the session: for an
  empty payload it has \<open>success = False\<close> and the message "Empty image data"; otherwise it
  has \<open>success = False\<close> and the message "Server memory limit exceeded", or it is the result
  of the task, which succeeded exactly when the text is not empty.
\<close>

lemma lone_session_answers_each_request:
  assumes "valid c0 requests nproc nthreads"
    and "run es (ProcessImages c0 nproc nthreads requests) = Some s"
  shows "length es \<le> 8 * length requests + 2
     \<and> (reader s \<noteq> R_Return \<longrightarrow> (\<exists>e s'. step e s = Some s'))
     \<and> (reader s = R_Return \<longrightarrow>
          mset (map (\<lambda>w. result_image_id (fst w)) (stream_out s)) = mset (map image_id requests)
          \<and> (distinct (map image_id requests) \<longrightarrow>
               (\<forall>request\<in>set requests.
                  length (filter (\<lambda>w. result_image_id (fst w) = image_id request) (stream_out s)) = 1)))
     \<and> (\<forall>w\<in>set (stream_out s).
          \<exists>request\<in>set requests.
            if image_data request = []
            then fst w = \<lparr>result_image_id = image_id request, extracted_text = [],
                           success = False, error_message = ''Empty image data''\<rparr>
            else fst w = \<lparr>result_image_id = image_id request, extracted_text = [],
                           success = False, error_message = ''Server memory limit exceeded''\<rparr>
                 \<or> fst w = \<lparr>result_image_id = image_id request,
                              extracted_text = extracted_text (fst w),
                              success = (extracted_text (fst w) \<noteq> []),
                              error_message = (if extracted_text (fst w) = []
                                               then ''OCR failed to extract text'' else [])\<rparr>)"
proof (intro conjI impI ballI)
  from run_weight [OF assms(2)] show "length es \<le> 8 * length requests + 2"
    by (simp add: weight_init)
next
  assume "reader s \<noteq> R_Return"
  with assms(1) reachable_inv [OF assms] show "\<exists>e s'. step e s = Some s'"
    by (rule progress)
next
  assume "reader s = R_Return"
  with assms show
    "mset (map (\<lambda>w. result_image_id (fst w)) (stream_out s)) = mset (map image_id requests)"
    by (rule final_state(1))
next
  fix request
  assume "reader s = R_Return" "distinct (map image_id requests)" "request \<in> set requests"
  with assms show
    "length (filter (\<lambda>w. result_image_id (fst w) = image_id request) (stream_out s)) = 1"
    by (rule final_count)
next
  fix w
  assume "w \<in> set (stream_out s)"
  with assms have "good_result requests (fst w)"
    by (rule written_results_good)
  then show "\<exists>request\<in>set requests.
            if image_data request = []
            then fst w = \<lparr>result_image_id = image_id request, extracted_text = [],
                           success = False, error_message = ''Empty image data''\<rparr>
            else fst w = \<lparr>result_image_id = image_id request, extracted_text = [],
                           success = False, error_message = ''Server memory limit exceeded''\<rparr>
                 \<or> fst w = \<lparr>result_image_id = image_id request,
                              extracted_text = extracted_text (fst w),
                              success = (extracted_text (fst w) \<noteq> []),
                              error_message = (if extracted_text (fst w) = []
                                               then ''OCR failed to extract text'' else [])\<rparr>"
    by (rule good_result_explicit)
qed

subsection \<open>The memory governor\<close>

lemma memory_check_no_overflow:
  assumes "unat g + length d < 2 ^ 64"
  shows "(MAX_MEMORY_USAGE < g + size_of d) \<longleftrightarrow> (unat MAX_MEMORY_USAGE < unat g + length d)"
    and "unat (g + size_of d) = unat g + length d"
proof -
  from assms have "length d < 2 ^ 64"
    by simp
  then have u: "unat (size_of d) = length d"
    by (simp add: size_of_def unat_of_nat)
  with assms have "unat g + unat (size_of d) < 2 ^ 64"
    by simp
  then have "unat (g + size_of d) = unat g + unat (size_of d)"
    by (simp add: unat_add_lem [THEN iffD1])
  with u show "unat (g + size_of d) = unat g + length d"
    by simp
  then show "(MAX_MEMORY_USAGE < g + size_of d) \<longleftrightarrow> (unat MAX_MEMORY_USAGE < unat g + length d)"
    by (simp add: word_less_nat_alt)
qed

lemma governor_admit:
  assumes "reader s = R_Read" "stream_in s = request # rest"
    "unat (g_activeImageSize s) + length (image_data request) < 2 ^ 64"
  shows "rd_read s =
     Some (s\<lparr>stream_in := rest,
              reader := (if unat MAX_MEMORY_USAGE
                              < unat (g_activeImageSize s) + length (image_data request)
                         then R_Lock (memory_limit_result (image_id request))
                         else R_RateLimit request)\<rparr>)"
  using assms memory_check_no_overflow(1) [OF assms(3)]
  by (simp add: rd_read_def Let_def)

lemma governor_add:
  assumes "reader s = R_RateLimit request" "\<not> MAX_CONCURRENT_TASKS \<le>s activeTasks s"
    "unat (g_activeImageSize s) + length (image_data request) < 2 ^ 64"
  shows "map_option (\<lambda>s'. unat (g_activeImageSize s')) (rd_dispatch s)
           = Some (unat (g_activeImageSize s) + length (image_data request))"
  using assms memory_check_no_overflow(2) [OF assms(3)]
  by (simp add: rd_dispatch_def enqueue_def Let_def)

lemma governor_release:
  assumes "i < length (m_workers s)" "m_workers s ! i = W_Task task"
  shows "map_option g_activeImageSize (wk_run i extractedText s)
           = Some (g_activeImageSize s - size_of (imageData task))"
  using assms by (simp add: wk_run_def)

lemma governor_write:
  assumes "i < length (m_workers s)" "m_workers s ! i = W_Write result"
  shows "map_option g_activeImageSize (wk_write i ok s) = Some (g_activeImageSize s)"
  using assms by (simp add: wk_write_def)

lemma governor_reachable:
  assumes "valid c0 requests nproc nthreads"
    and "run es (ProcessImages c0 nproc nthreads requests) = Some s"
  shows "unat (g_activeImageSize s) = unat c0 + in_flight_bytes s"
    and "unat (g_activeImageSize s) \<le> unat MAX_MEMORY_USAGE"
  using reachable_inv [OF assms] by (simp_all add: inv_def inv_counter_def)

text \<open>
  The counter in a session that has the service to itself. With
  \<open>MAX_MEMORY_USAGE = 500 * 1024 * 1024\<close>: reading a request of \<open>n\<close> bytes at counter \<open>c\<close>
  (their sum fitting a \<open>size_t\<close>) rejects it, with the counter left as it is, exactly
  when \<open>c + n\<close> exceeds the limit; otherwise the reader goes on with the request and the
  dispatch adds \<open>n\<close> to the counter. A worker subtracts the task's size as soon as
  \<open>processImage\<close> has returned, before the response is written, and the write changes
  nothing, whatever it returns. In every reachable state of the session, started at
  counter \<open>c0\<close>, the counter is \<open>c0\<close> plus the bytes of the tasks queued or being
  recognised, never above the limit, and it is \<open>c0\<close> again when the session has
  returned.
\<close>

lemma lone_session_governor:
  "(reader s_read = R_Read \<and> stream_in s_read = request # rest
      \<and> unat (g_activeImageSize s_read) + length (image_data request) < 2 ^ 64 \<longrightarrow>
      rd_read s_read =
        Some (s_read\<lparr>stream_in := rest,
                  reader := (if unat MAX_MEMORY_USAGE
                                  < unat (g_activeImageSize s_read) + length (image_data request)
                             then R_Lock (memory_limit_result (image_id request))
                             else R_RateLimit request)\<rparr>))
   \<and> (reader s_wait = R_RateLimit admitted \<and> \<not> MAX_CONCURRENT_TASKS \<le>s activeTasks s_wait
      \<and> unat (g_activeImageSize s_wait) + length (image_data admitted) < 2 ^ 64 \<longrightarrow>
      map_option (\<lambda>s'. unat (g_activeImageSize s')) (rd_dispatch s_wait)
        = Some (unat (g_activeImageSize s_wait) + length (image_data admitted)))
   \<and> (i < length (m_workers s_run) \<and> m_workers s_run ! i = W_Task task \<longrightarrow>
      map_option g_activeImageSize (wk_run i extractedText s_run)
        = Some (g_activeImageSize s_run - size_of (imageData task)))
   \<and> (j < length (m_workers s_write) \<and> m_workers s_write ! j = W_Write result \<longrightarrow>
      map_option g_activeImageSize (wk_write j ok s_write) = Some (g_activeImageSize s_write))
   \<and> (valid c0 requests nproc nthreads
      \<and> run es (ProcessImages c0 nproc nthreads requests) = Some s \<longrightarrow>
      unat (g_activeImageSize s) = unat c0 + in_flight_bytes s
      \<and> unat (g_activeImageSize s) \<le> unat MAX_MEMORY_USAGE
      \<and> (reader s = R_Return \<longrightarrow> g_activeImageSize s = c0))
   \<and> unat MAX_MEMORY_USAGE = 500 * 1024 * 1024"
proof (intro conjI impI; (elim conjE)?)
  assume "reader s_read = R_Read" "stream_in s_read = request # rest"
    "unat (g_activeImageSize s_read) + length (image_data request) < 2 ^ 64"
  then show "rd_read s_read =
        Some (s_read\<lparr>stream_in := rest,
                  reader := (if unat MAX_MEMORY_USAGE
                                  < unat (g_activeImageSize s_read) + length (image_data request)
                             then R_Lock (memory_limit_result (image_id request))
                             else R_RateLimit request)\<rparr>)"
    by (rule governor_admit)
next
  assume "reader s_wait = R_RateLimit admitted" "\<not> MAX_CONCURRENT_TASKS \<le>s activeTasks s_wait"
    "unat (g_activeImageSize s_wait) + length (image_data admitted) < 2 ^ 64"
  then show "map_option (\<lambda>s'. unat (g_activeImageSize s')) (rd_dispatch s_wait)
        = Some (unat (g_activeImageSize s_wait) + length (image_data admitted))"
    by (rule governor_add)
next
  assume "i < length (m_workers s_run)" "m_workers s_run ! i = W_Task task"
  then show "map_option g_activeImageSize (wk_run i extractedText s_run)
        = Some (g_activeImageSize s_run - size_of (imageData task))"
    by (rule governor_release)
next
  assume "j < length (m_workers s_write)" "m_workers s_write ! j = W_Write result"
  then show "map_option g_activeImageSize (wk_write j ok s_write) = Some (g_activeImageSize s_write)"
    by (rule governor_write)
next
  assume a: "valid c0 requests nproc nthreads"
    "run es (ProcessImages c0 nproc nthreads requests) = Some s"
  then show "unat (g_activeImageSize s) = unat c0 + in_flight_bytes s"
    by (rule governor_reachable(1))
  from a show "unat (g_activeImageSize s) \<le> unat MAX_MEMORY_USAGE"
    by (rule governor_reachable(2))
  assume "reader s = R_Return"
  with a show "g_activeImageSize s = c0"
    by (rule final_state(2))
next
  show "unat MAX_MEMORY_USAGE = 500 * 1024 * 1024"
    by (simp add: MAX_MEMORY_USAGE_def)
qed

subsection \<open>Empty payloads\<close>







subsection \<open>The stream's write side\<close>

lemma writes_serialized:
  assumes "valid c0 requests nproc nthreads"
    and "run es (ProcessImages c0 nproc nthreads requests) = Some s"
  shows "writers s \<le> 1"
  using reachable_inv [OF assms] by (simp add: inv_def inv_mutex_def split: option.splits)

text \<open>
  C8. In the session with the mutex, \<open>writes_serialized\<close> above, at most one thread is
  inside \<open>stream->Write\<close> in every reachable state. The variant without the mutex lets
  two workers be there at once: two requests, two workers, each worker pops one task
  and finishes recognising it, and both stand at \<open>stream->Write\<close>.
\<close>

theorem simple_variant_concurrent_writes:
  "map_option writers
     (run_simple [Rd_Read, Rd_Read, Wk_Pop 0, Wk_Pop 1, Wk_Run 0 ''x'', Wk_Run 1 ''y'']
        (ProcessImages 0 2 2
           [\<lparr>image_id = ''a'', filename = ''a.png'', image_data = ''PNG''\<rparr>,
            \<lparr>image_id = ''b'', filename = ''b.png'', image_data = ''PNG''\<rparr>]))
     = Some 2"
  by (simp add: rd_read_simple_def wk_run_simple_def wk_pop_def enqueue_def ProcessImages_def
      processorIndex_def writers_def Let_def numeral_2_eq_2)

section \<open>Properties of the service with concurrent sessions\<close>

subsection \<open>The rate limit of each session\<close>

lemmas service_defs = service_step_def session_read_def session_dispatch_def session_lock_def
  session_write_def session_waitAll_def pool_pop_def pool_run_def pool_lock_def pool_write_def
  pool_finish_def cleanup_wake_def cleanup_recreate_def pool_enqueue_def OCRServiceImpl_def
  processor_at_def processorIndex_def size_of_def MAX_MEMORY_USAGE_def
  MAX_CONCURRENT_TASKS_def word_sle_eq Let_def

lemma length_image_of_size [simp]: "length (image_of_size n) = n"
  by (simp add: image_of_size_def)

lemma image_of_size_empty [simp]: "(image_of_size n = []) = (n = 0)"
  by (simp add: image_of_size_def)


lemma session_dispatchE:
  assumes "session_dispatch k S = Some S'"
  obtains
    (empty) request where "k < length (sessions S)"
      "session_reader (sessions S ! k) = R_RateLimit request" "image_data request = []"
      "S' = S\<lparr>sessions := (sessions S)
             [k := (sessions S ! k)
                \<lparr>session_reader := R_Lock (empty_data_result (image_id request))\<rparr>]\<rparr>"
  | (undefined) "S' = S\<lparr>undefined_behaviour := True\<rparr>"
  | (enqueue) request object where "k < length (sessions S)"
      "session_reader (sessions S ! k) = R_RateLimit request"
      "\<not> MAX_CONCURRENT_TASKS \<le>s session_activeTasks (sessions S ! k)"
      "image_data request \<noteq> []"
      "S' = S\<lparr>svc_nextProcessorIndex := svc_nextProcessorIndex S + 1,
               sessions := (sessions S)
                 [k := (sessions S ! k)
                    \<lparr>session_activeTasks := session_activeTasks (sessions S ! k) + 1,
                     session_reader := R_Read\<rparr>],
               global_activeImageSize :=
                 global_activeImageSize S + size_of (image_data request),
               pool_tasks := pool_tasks S @
                 [\<lparr>job_stream = k, job_processor = object,
                   job_imageId = image_id request, job_filename = filename request,
                   job_imageData = image_data request\<rparr>],
               pool_activeTasks := pool_activeTasks S + 1\<rparr>"
  using assms
  apply atomize_elim
  by (auto simp: session_dispatch_def pool_enqueue_def Let_def
      split: reader_pc.splits if_splits option.splits)

lemma pool_popE:
  assumes "pool_pop i S = Some S'"
  obtains task rest where "i < length (pool_workers S)" "pool_workers S ! i = P_Idle"
    "pool_tasks S = task # rest"
    "S' = S\<lparr>pool_tasks := rest, pool_workers := (pool_workers S)[i := P_Task task]\<rparr>"
  using assms by (auto simp: pool_pop_def split: pool_pc.splits list.splits if_splits)

lemma pool_runE:
  assumes "pool_run i extractedText S = Some S'"
  obtains
    (undefined) "S' = S\<lparr>undefined_behaviour := True\<rparr>"
  | (result) task where "i < length (pool_workers S)" "pool_workers S ! i = P_Task task"
      "S' = S\<lparr>global_activeImageSize :=
                 global_activeImageSize S - size_of (job_imageData task),
               sessions := (sessions S)
                 [job_stream task := (sessions S ! job_stream task)
                    \<lparr>session_activeTasks :=
                       session_activeTasks (sessions S ! job_stream task) - 1\<rparr>],
               pool_workers := (pool_workers S)
                 [i := P_Lock (job_stream task) (task_result (job_imageId task) extractedText)]\<rparr>"
  using assms by (auto simp: pool_run_def Let_def split: pool_pc.splits if_splits)

lemma pool_lockE:
  assumes "pool_lock i S = Some S'"
  obtains k result where "i < length (pool_workers S)" "pool_workers S ! i = P_Lock k result"
    "S' = S\<lparr>svc_streamMutex := Some (Pool_thread i),
             pool_workers := (pool_workers S)[i := P_Write k result]\<rparr>"
  using assms by (auto simp: pool_lock_def split: pool_pc.splits if_splits)

lemma pool_writeE:
  assumes "pool_write i ok S = Some S'"
  obtains k result where "i < length (pool_workers S)" "pool_workers S ! i = P_Write k result"
    "S' = S\<lparr>svc_streamMutex := None,
             sessions := (sessions S)
               [k := (sessions S ! k)
                  \<lparr>session_out := session_out (sessions S ! k) @ [(result, ok)]\<rparr>],
             pool_workers := (pool_workers S)[i := P_Finish]\<rparr>"
  using assms by (auto simp: pool_write_def Let_def split: pool_pc.splits if_splits)

lemma pool_finishE:
  assumes "pool_finish i S = Some S'"
  obtains "i < length (pool_workers S)" "pool_workers S ! i = P_Finish"
    "S' = S\<lparr>pool_activeTasks := pool_activeTasks S - 1,
             pool_workers := (pool_workers S)[i := P_Idle]\<rparr>"
  using assms by (auto simp: pool_finish_def split: pool_pc.splits if_splits)

lemma cleanupE:
  assumes "cleanup_wake S = Some S' \<or> cleanup_recreate S = Some S'"
  obtains ps n pc where "S' = S\<lparr>svc_processors := ps, svc_created := n, svc_cleanup := pc\<rparr>"
proof -
  from assms have "S' = S\<lparr>svc_processors := svc_processors S', svc_created := svc_created S',
      svc_cleanup := svc_cleanup S'\<rparr>"
    by (auto simp: cleanup_wake_def cleanup_recreate_def split: cleanup_pc.splits if_splits)
  then show ?thesis ..
qed


















subsection \<open>The task queue\<close>








subsection \<open>The memory check and the addition are two steps\<close>

text \<open>
  In every reachable state of the service the counter is the number of bytes of the
  tasks that are queued or inside \<open>processImage\<close>, as a 64-bit word: each dispatch adds
  what the worker subtracts later, and the counter is 0 whenever no task is in flight.
\<close>

lemma bytes_update:
  assumes "i < length ws" "ws ! i = old"
  shows "sum_list (map pool_bytes (ws[i := new])) + pool_bytes old
           = sum_list (map pool_bytes ws) + pool_bytes new"
  using assms sum_list_update_add [of i ws pool_bytes new] by simp

lemma counter_step:
  assumes inv: "global_activeImageSize S = word_of_nat (bytes_in_flight S)"
    and st: "service_step a S = Some S'"
  shows "global_activeImageSize S' = word_of_nat (bytes_in_flight S')"
proof -
  from st have st': "action_step a S = Some S'"
    by (simp add: service_step_def split: if_splits)
  have same: "global_activeImageSize S' = global_activeImageSize S
      \<Longrightarrow> bytes_in_flight S' = bytes_in_flight S \<Longrightarrow> ?thesis"
    using inv by simp
  show ?thesis
  proof (cases a)
    case (Session_Read k)
    with st' show ?thesis
      by (intro same)
        (auto simp: session_read_def Let_def bytes_in_flight_def
          split: reader_pc.splits list.splits if_splits)
  next
    case (Session_Dispatch k)
    with st' have "session_dispatch k S = Some S'" by simp
    then show ?thesis
    proof (cases rule: session_dispatchE)
      case (empty request)
      then show ?thesis
        by (intro same) (simp_all add: bytes_in_flight_def)
    next
      case undefined
      then show ?thesis
        by (intro same) (simp_all add: bytes_in_flight_def)
    next
      case (enqueue request object)
      from enqueue(5) have "bytes_in_flight S' = bytes_in_flight S + length (image_data request)"
        by (simp add: bytes_in_flight_def)
      moreover from enqueue(5) have "global_activeImageSize S'
          = global_activeImageSize S + word_of_nat (length (image_data request))"
        by (simp add: size_of_def)
      ultimately show ?thesis
        using inv by simp
    qed
  next
    case (Session_Lock k)
    with st' show ?thesis
      by (intro same)
        (auto simp: session_lock_def Let_def bytes_in_flight_def
          split: reader_pc.splits if_splits)
  next
    case (Session_Write k ok)
    with st' show ?thesis
      by (intro same)
        (auto simp: session_write_def Let_def bytes_in_flight_def split: reader_pc.splits if_splits)
  next
    case (Session_WaitAll k)
    with st' show ?thesis
      by (intro same)
        (auto simp: session_waitAll_def Let_def bytes_in_flight_def
          split: reader_pc.splits if_splits)
  next
    case (Pool_Pop i)
    with st' have "pool_pop i S = Some S'" by simp
    then show ?thesis
    proof (cases rule: pool_popE)
      case (1 task rest)
      with bytes_update [OF 1(1) 1(2), of "P_Task task"] show ?thesis
        by (intro same) (simp_all add: bytes_in_flight_def)
    qed
  next
    case (Pool_Run i t)
    with st' have "pool_run i t S = Some S'" by simp
    then show ?thesis
    proof (cases rule: pool_runE)
      case undefined
      then show ?thesis
        by (intro same) (simp_all add: bytes_in_flight_def)
    next
      case (result task)
      with bytes_update [OF result(1) result(2),
          of "P_Lock (job_stream task) (task_result (job_imageId task) t)"]
      have "bytes_in_flight S = bytes_in_flight S' + length (job_imageData task)"
        by (simp add: bytes_in_flight_def)
      moreover from result(3) have "global_activeImageSize S'
          = global_activeImageSize S - word_of_nat (length (job_imageData task))"
        by (simp add: size_of_def)
      ultimately show ?thesis
        using inv by simp
    qed
  next
    case (Pool_Lock i)
    with st' have "pool_lock i S = Some S'" by simp
    then show ?thesis
    proof (cases rule: pool_lockE)
      case (1 k result)
      with bytes_update [OF 1(1) 1(2), of "P_Write k result"] show ?thesis
        by (intro same) (simp_all add: bytes_in_flight_def)
    qed
  next
    case (Pool_Write i ok)
    with st' have "pool_write i ok S = Some S'" by simp
    then show ?thesis
    proof (cases rule: pool_writeE)
      case (1 k result)
      with bytes_update [OF 1(1) 1(2), of P_Finish] show ?thesis
        by (intro same) (simp_all add: bytes_in_flight_def)
    qed
  next
    case (Pool_Finish i)
    with st' have "pool_finish i S = Some S'" by simp
    then show ?thesis
    proof (cases rule: pool_finishE)
      case 1
      with bytes_update [OF 1(1) 1(2), of P_Idle] show ?thesis
        by (intro same) (simp_all add: bytes_in_flight_def)
    qed
  next
    case Cleanup_Wake
    with st' have "cleanup_wake S = Some S' \<or> cleanup_recreate S = Some S'" by simp
    then show ?thesis
      by (cases rule: cleanupE) (intro same, simp_all add: bytes_in_flight_def)
  next
    case Cleanup_Recreate
    with st' have "cleanup_wake S = Some S' \<or> cleanup_recreate S = Some S'" by simp
    then show ?thesis
      by (cases rule: cleanupE) (intro same, simp_all add: bytes_in_flight_def)
  qed
qed

lemma counter_is_bytes_in_flight:
  assumes "service_run as (OCRServiceImpl numProcessors numThreads streams) = Some S"
  shows "global_activeImageSize S = word_of_nat (bytes_in_flight S)"
proof -
  have "global_activeImageSize S0 = word_of_nat (bytes_in_flight S0)
      \<Longrightarrow> service_run as S0 = Some S
      \<Longrightarrow> global_activeImageSize S = word_of_nat (bytes_in_flight S)" for S0
  proof (induction as arbitrary: S0)
    case Nil
    then show ?case by simp
  next
    case (Cons a as)
    from Cons.prems(2) obtain S1 where s: "service_step a S0 = Some S1" "service_run as S1 = Some S"
      by (auto split: option.splits)
    from Cons.prems(1) s(1) have "global_activeImageSize S1 = word_of_nat (bytes_in_flight S1)"
      by (rule counter_step)
    from this s(2) show ?case
      by (rule Cons.IH)
  qed
  moreover have "global_activeImageSize (OCRServiceImpl numProcessors numThreads streams)
      = word_of_nat (bytes_in_flight (OCRServiceImpl numProcessors numThreads streams))"
    by (simp add: OCRServiceImpl_def bytes_in_flight_def)
  ultimately show ?thesis
    using assms by blast
qed

text \<open>
  C2. The check of \<open>g_activeImageSize + imageData.size()\<close> against the limit and the
  addition to the counter are separate steps of the reader, with the wait for the rate
  limit between them, and the counter is shared by all sessions. Payloads of 90 MiB:
  the first session has three tasks in flight and the second one, which makes
  360 MiB. Both sessions read another request and both checks pass, at 450 MiB. Both
  dispatch: the second addition is made at a counter of 450 MiB, the request is
  enqueued, and the counter stands at 540 MiB, above the limit of 500 MiB. Had the
  second session read its request after the dispatch of the first, the check would have
  rejected it.
\<close>

theorem admission_check_then_add_race:
  "(let image = image_of_size (90 * 1024 * 1024);
        request = (\<lambda>i. \<lparr>image_id = i, filename = i, image_data = image\<rparr>);
        S0 = OCRServiceImpl 4 4
               [[request ''a'', request ''b'', request ''c'', request ''d''],
                [request ''e'', request ''f'']];
        as = [Session_Read 0, Session_Dispatch 0, Session_Read 0, Session_Dispatch 0,
              Session_Read 0, Session_Dispatch 0, Session_Read 1, Session_Dispatch 1,
              Session_Read 0]
    in map_option (\<lambda>S. (unat (global_activeImageSize S), map session_reader (sessions S)))
         (service_run (as @ [Session_Read 1, Session_Dispatch 0]) S0)
         = Some (5 * (90 * 1024 * 1024), [R_Read, R_RateLimit (request ''f'')])
     \<and> map_option (\<lambda>S. (unat (global_activeImageSize S), length (pool_tasks S),
                         undefined_behaviour S))
         (service_run (as @ [Session_Read 1, Session_Dispatch 0, Session_Dispatch 1]) S0)
         = Some (6 * (90 * 1024 * 1024), 6, False)
     \<and> unat MAX_MEMORY_USAGE < 6 * (90 * 1024 * 1024)
     \<and> map_option (\<lambda>S. (unat (global_activeImageSize S), map session_reader (sessions S)))
         (service_run (as @ [Session_Dispatch 0, Session_Read 1]) S0)
         = Some (5 * (90 * 1024 * 1024),
                 [R_Read, R_Lock \<lparr>result_image_id = ''f'', extracted_text = [], success = False,
                                  error_message = ''Server memory limit exceeded''\<rparr>]))"
  by (simp add: service_defs memory_limit_result_def)

subsection \<open>The cleanup thread and the tasks\<close>

text \<open>
  C1. The cleanup thread replaces every element of \<open>m_processors\<close> every 30 seconds,
  whatever the pool is doing, and the jobs keep the raw pointer they were given. One
  session sends one request: the reader dispatches it with the pointer to the only
  processor, the worker takes the job and is inside \<open>processImage\<close>, the cleanup thread
  wakes and recreates the processor, which destroys the object the worker is using.
  The behaviour is undefined, and no result for the request has been written. The same
  schedule without the two steps of the cleanup thread goes on to write the one result
  of the request, and the session returns.
\<close>

theorem cleanup_destroys_processor_in_use:
  "(let request = \<lparr>image_id = ''a'', filename = ''a.png'', image_data = ''PNG''\<rparr>;
        S0 = OCRServiceImpl 1 1 [[request]]
    in map_option (\<lambda>S. (undefined_behaviour S, session_out (sessions S ! 0)))
         (service_run [Session_Read 0, Session_Dispatch 0, Pool_Pop 0,
                       Cleanup_Wake, Cleanup_Recreate, Pool_Run 0 ''text''] S0)
         = Some (True, [])
     \<and> map_option (\<lambda>S. (undefined_behaviour S, session_out (sessions S ! 0),
                         session_reader (sessions S ! 0)))
         (service_run [Session_Read 0, Session_Dispatch 0, Pool_Pop 0, Pool_Run 0 ''text'',
                       Pool_Lock 0, Pool_Write 0 True, Pool_Finish 0,
                       Session_Read 0, Session_WaitAll 0] S0)
         = Some (False,
                 [(\<lparr>result_image_id = ''a'', extracted_text = ''text'', success = True,
                    error_message = []\<rparr>, True)],
                 R_Return))"
  by (simp add: service_defs task_result_def)

end
